theory Spec2Isabelle
  imports Main "HOL-Library.Monad_Syntax" "HOL-Library.Char_ord" "HOL-Library.List_Lexorder"
    "HOL-Library.Multiset"
begin

section \<open>Data model of splayTree.c\<close>

text \<open>
  A \<open>ChatNode *\<close> is an address (\<open>nat\<close>) or \<open>NULL\<close> (\<open>None\<close>). The heap maps
  every allocated address to the node stored there. The strings \<open>chat_id\<close> and \<open>title\<close>
  are the contents of the C character arrays up to the terminating NUL. The \<open>long\<close>
  timestamp is only stored, copied and compared, never computed with, and the \<open>int\<close>
  size only counts nodes; both are modelled as unbounded integers.
\<close>

record ChatNode =
  chat_id :: string
  title :: string
  timestamp :: int
  left :: "nat option"
  right :: "nat option"
  parent :: "nat option"

text \<open>
  The program has one \<open>SplayTree\<close>; its two fields \<open>root\<close> and \<open>size\<close> are kept in
  the program state next to the heap (\<open>size\<close> under the name \<open>size_tree\<close>).
  \<open>next_addr\<close> is the allocator: \<open>calloc\<close> hands out the address \<open>next_addr\<close>, which
  was never allocated before, and always succeeds; \<open>free\<close> removes the node from the heap.
  Every operation runs in the option monad: \<open>None\<close> stands for a computation without a
  result, because it dereferences \<open>NULL\<close> or a freed address or because a loop does not
  end.
\<close>

record state =
  heap :: "nat \<Rightarrow> ChatNode option"
  root :: "nat option"
  size_tree :: int
  next_addr :: nat

definition MAX_ID_LEN :: nat where
  "MAX_ID_LEN = 64"

definition MAX_TITLE_LEN :: nat where
  "MAX_TITLE_LEN = 256"

definition MAX_CHATS :: nat where
  "MAX_CHATS = 100"

text \<open>
  \<open>strcmp\<close> of the C library, on the bytes read as unsigned: negative, zero or positive.
  Only the sign of its result is used by the program.
\<close>

fun strcmp :: "string \<Rightarrow> string \<Rightarrow> int" where
  "strcmp [] [] = 0"
| "strcmp [] (y # ys) = - 1"
| "strcmp (x # xs) [] = 1"
| "strcmp (x # xs) (y # ys) =
     (if x = y then strcmp xs ys
      else if (of_char x :: nat) < of_char y then - 1 else 1)"

text \<open>
  \<open>strncpy(dst, src, n)\<close> into a buffer of \<open>n + 1\<close> bytes whose last byte is NUL: the
  buffer then holds the first \<open>n\<close> characters of \<open>src\<close>.
\<close>

definition strncpy :: "string \<Rightarrow> nat \<Rightarrow> string" where
  "strncpy src n = take n src"

subsection \<open>Heap access\<close>

text \<open>
  \<open>upd_node a f s\<close> is an assignment to fields of the node at \<open>a\<close>; dereferencing an
  address that holds no node has no result (\<open>None\<close>).
\<close>

definition upd_node :: "nat \<Rightarrow> (ChatNode \<Rightarrow> ChatNode) \<Rightarrow> state \<Rightarrow> state option" where
  "upd_node a f s =
     (case heap s a of
        None \<Rightarrow> None
      | Some n \<Rightarrow> Some (s\<lparr>heap := (heap s)(a := Some (f n))\<rparr>))"

definition free_node :: "nat \<Rightarrow> state \<Rightarrow> state" where
  "free_node a s = s\<lparr>heap := (heap s)(a := None)\<rparr>"

definition create_node :: "string \<Rightarrow> string \<Rightarrow> int \<Rightarrow> state \<Rightarrow> state \<times> nat" where
  "create_node ident ttl ts s =
     (let a = next_addr s;
          node = \<lparr>chat_id = strncpy ident (MAX_ID_LEN - 1),
                  title = strncpy ttl (MAX_TITLE_LEN - 1),
                  timestamp = ts, left = None, right = None, parent = None\<rparr>
      in (s\<lparr>heap := (heap s)(a := Some node), next_addr := Suc a\<rparr>, a))"

definition create_splay_tree :: state where
  "create_splay_tree = \<lparr>heap = (\<lambda>a. None), root = None, size_tree = 0, next_addr = 0\<rparr>"

subsection \<open>Rotations and splay\<close>

text \<open>
  \<open>rotate_right\<close>, statement by statement: \<open>y = x->left\<close> (return when it is \<open>NULL\<close>);
  \<open>x->left = y->right\<close>; \<open>if (y->right) y->right->parent = x\<close>; \<open>y->parent = x->parent\<close>;
  \<open>y\<close> takes the place of \<open>x\<close> at \<open>tree->root\<close> or below \<open>x->parent\<close> (on the left when
  \<open>x == x->parent->left\<close>, else on the right); \<open>y->right = x\<close>; \<open>x->parent = y\<close>. Every
  field is read from the state in which the C statement reads it. \<open>rotate_left\<close> is its
  mirror image.
\<close>

definition rotate_right :: "nat \<Rightarrow> state \<Rightarrow> state option" where
  "rotate_right x s = do {
     xn \<leftarrow> heap s x;
     case left xn of
       None \<Rightarrow> Some s
     | Some y \<Rightarrow> do {
         yn \<leftarrow> heap s y;
         s1 \<leftarrow> upd_node x (\<lambda>n. n\<lparr>left := right yn\<rparr>) s;
         yn1 \<leftarrow> heap s1 y;
         s2 \<leftarrow> (case right yn1 of
                  None \<Rightarrow> Some s1
                | Some c \<Rightarrow> upd_node c (\<lambda>n. n\<lparr>parent := Some x\<rparr>) s1);
         xn2 \<leftarrow> heap s2 x;
         s3 \<leftarrow> upd_node y (\<lambda>n. n\<lparr>parent := parent xn2\<rparr>) s2;
         xn3 \<leftarrow> heap s3 x;
         s4 \<leftarrow> (case parent xn3 of
                  None \<Rightarrow> Some (s3\<lparr>root := Some y\<rparr>)
                | Some p \<Rightarrow> do {
                    pn \<leftarrow> heap s3 p;
                    if left pn = Some x
                    then upd_node p (\<lambda>n. n\<lparr>left := Some y\<rparr>) s3
                    else upd_node p (\<lambda>n. n\<lparr>right := Some y\<rparr>) s3 });
         s5 \<leftarrow> upd_node y (\<lambda>n. n\<lparr>right := Some x\<rparr>) s4;
         upd_node x (\<lambda>n. n\<lparr>parent := Some y\<rparr>) s5 } }"

definition rotate_left :: "nat \<Rightarrow> state \<Rightarrow> state option" where
  "rotate_left x s = do {
     xn \<leftarrow> heap s x;
     case right xn of
       None \<Rightarrow> Some s
     | Some y \<Rightarrow> do {
         yn \<leftarrow> heap s y;
         s1 \<leftarrow> upd_node x (\<lambda>n. n\<lparr>right := left yn\<rparr>) s;
         yn1 \<leftarrow> heap s1 y;
         s2 \<leftarrow> (case left yn1 of
                  None \<Rightarrow> Some s1
                | Some c \<Rightarrow> upd_node c (\<lambda>n. n\<lparr>parent := Some x\<rparr>) s1);
         xn2 \<leftarrow> heap s2 x;
         s3 \<leftarrow> upd_node y (\<lambda>n. n\<lparr>parent := parent xn2\<rparr>) s2;
         xn3 \<leftarrow> heap s3 x;
         s4 \<leftarrow> (case parent xn3 of
                  None \<Rightarrow> Some (s3\<lparr>root := Some y\<rparr>)
                | Some p \<Rightarrow> do {
                    pn \<leftarrow> heap s3 p;
                    if left pn = Some x
                    then upd_node p (\<lambda>n. n\<lparr>left := Some y\<rparr>) s3
                    else upd_node p (\<lambda>n. n\<lparr>right := Some y\<rparr>) s3 });
         s5 \<leftarrow> upd_node y (\<lambda>n. n\<lparr>left := Some x\<rparr>) s4;
         upd_node x (\<lambda>n. n\<lparr>parent := Some y\<rparr>) s5 } }"

text \<open>
  One round of the \<open>while (x->parent)\<close> loop of \<open>splay\<close>, for the parent \<open>p\<close> of \<open>x\<close>:
  zig, zig-zig or zig-zag.
\<close>

definition splay_step :: "nat \<Rightarrow> nat \<Rightarrow> state \<Rightarrow> state option" where
  "splay_step x p s = do {
     pn \<leftarrow> heap s p;
     case parent pn of
       None \<Rightarrow> (if left pn = Some x then rotate_right p s else rotate_left p s)
     | Some g \<Rightarrow> do {
         gn \<leftarrow> heap s g;
         if left pn = Some x \<and> left gn = Some p
         then do { s1 \<leftarrow> rotate_right g s; rotate_right p s1 }
         else if right pn = Some x \<and> right gn = Some p
         then do { s1 \<leftarrow> rotate_left g s; rotate_left p s1 }
         else if right pn = Some x \<and> left gn = Some p
         then do { s1 \<leftarrow> rotate_left p s; rotate_right g s1 }
         else do { s1 \<leftarrow> rotate_right p s; rotate_left g s1 } } }"

partial_function (option) splay_loop :: "nat \<Rightarrow> state \<Rightarrow> state option" where
  "splay_loop x s = do {
     xn \<leftarrow> heap s x;
     case parent xn of
       None \<Rightarrow> Some s
     | Some p \<Rightarrow> do { s1 \<leftarrow> splay_step x p s; splay_loop x s1 } }"

declare splay_loop.simps [code]

definition splay :: "nat option \<Rightarrow> state \<Rightarrow> state option" where
  "splay x s = (case x of None \<Rightarrow> Some s | Some a \<Rightarrow> splay_loop a s)"

subsection \<open>Find, insert, access, delete\<close>

partial_function (option) find_node_loop ::
    "(nat \<Rightarrow> ChatNode option) \<Rightarrow> string \<Rightarrow> nat option \<Rightarrow> nat option option" where
  "find_node_loop h k cur =
     (case cur of
        None \<Rightarrow> Some None
      | Some c \<Rightarrow> do {
          cn \<leftarrow> h c;
          if strcmp k (chat_id cn) = 0 then Some (Some c)
          else if strcmp k (chat_id cn) < 0 then find_node_loop h k (left cn)
          else find_node_loop h k (right cn) })"

declare find_node_loop.simps [code]

definition find_node :: "string \<Rightarrow> state \<Rightarrow> nat option option" where
  "find_node k s = find_node_loop (heap s) k (root s)"

text \<open>
  The descent of \<open>insert_chat\<close>: it leaves the loop either at a node whose key compares
  equal (\<open>Inl\<close>, the early return) or at \<open>NULL\<close> with the last node visited (\<open>Inr\<close>).
\<close>

partial_function (option) insert_walk ::
    "(nat \<Rightarrow> ChatNode option) \<Rightarrow> string \<Rightarrow> nat option \<Rightarrow> nat option
      \<Rightarrow> (nat + nat option) option" where
  "insert_walk h ident cur par =
     (case cur of
        None \<Rightarrow> Some (Inr par)
      | Some c \<Rightarrow> do {
          cn \<leftarrow> h c;
          if strcmp ident (chat_id cn) = 0 then Some (Inl c)
          else if strcmp ident (chat_id cn) < 0 then insert_walk h ident (left cn) (Some c)
          else insert_walk h ident (right cn) (Some c) })"

declare insert_walk.simps [code]

text \<open>
  \<open>insert_chat\<close>: the new node is created first. On an empty tree it becomes the root
  and \<open>size\<close> is set to 1. Otherwise the descent runs with the \<open>id\<close> as it was passed (not
  with the key stored in the new node). On a match the found node gets the new title and
  timestamp, the new node is freed and the found node is splayed; else the new node is
  attached below the last node visited, \<open>size\<close> is incremented and the new node is splayed.
\<close>

definition insert_chat :: "string \<Rightarrow> string \<Rightarrow> int \<Rightarrow> state \<Rightarrow> (state \<times> nat) option" where
  "insert_chat ident ttl ts s0 =
     (let (s, new_node) = create_node ident ttl ts s0 in
      case root s of
        None \<Rightarrow> Some (s\<lparr>root := Some new_node, size_tree := 1\<rparr>, new_node)
      | Some r \<Rightarrow> do {
          w \<leftarrow> insert_walk (heap s) ident (Some r) None;
          case w of
            Inl cur \<Rightarrow> do {
              s1 \<leftarrow> upd_node cur
                     (\<lambda>n. n\<lparr>title := strncpy ttl (MAX_TITLE_LEN - 1), timestamp := ts\<rparr>) s;
              s2 \<leftarrow> splay (Some cur) (free_node new_node s1);
              Some (s2, cur) }
          | Inr par \<Rightarrow> do {
              s1 \<leftarrow> upd_node new_node (\<lambda>n. n\<lparr>parent := par\<rparr>) s;
              p \<leftarrow> par;
              pn \<leftarrow> heap s1 p;
              s2 \<leftarrow> (if strcmp ident (chat_id pn) < 0
                     then upd_node p (\<lambda>n. n\<lparr>left := Some new_node\<rparr>) s1
                     else upd_node p (\<lambda>n. n\<lparr>right := Some new_node\<rparr>) s1);
              s3 \<leftarrow> splay (Some new_node) (s2\<lparr>size_tree := size_tree s2 + 1\<rparr>);
              Some (s3, new_node) } })"

definition access_chat :: "string \<Rightarrow> state \<Rightarrow> (state \<times> nat option) option" where
  "access_chat k s = do {
     node \<leftarrow> find_node k s;
     case node of
       None \<Rightarrow> Some (s, None)
     | Some a \<Rightarrow> do { s1 \<leftarrow> splay (Some a) s; Some (s1, Some a) } }"

text \<open>The loop \<open>while (max_left->right) max_left = max_left->right\<close> of \<open>delete_chat\<close>.\<close>

partial_function (option) max_left_loop :: "(nat \<Rightarrow> ChatNode option) \<Rightarrow> nat \<Rightarrow> nat option" where
  "max_left_loop h m = do {
     mn \<leftarrow> h m;
     case right mn of None \<Rightarrow> Some m | Some r \<Rightarrow> max_left_loop h r }"

declare max_left_loop.simps [code]

text \<open>
  The two-children branch of \<open>delete_chat\<close> in its three parts: detaching both subtrees
  of \<open>node\<close>, finding the maximum of the left one and making the left subtree the tree
  (\<open>delete_detach\<close>, which returns \<open>max_left\<close> and \<open>right_subtree\<close>); the splay of
  \<open>max_left\<close>; and hanging the right subtree under the new root (\<open>delete_attach\<close>).
\<close>

definition delete_detach :: "nat \<Rightarrow> state \<Rightarrow> (state \<times> nat \<times> nat) option" where
  "delete_detach node s = do {
     nn \<leftarrow> heap s node;
     left_subtree \<leftarrow> left nn;
     s1 \<leftarrow> upd_node left_subtree (\<lambda>n. n\<lparr>parent := None\<rparr>) s;
     nn1 \<leftarrow> heap s1 node;
     right_subtree \<leftarrow> right nn1;
     s2 \<leftarrow> upd_node right_subtree (\<lambda>n. n\<lparr>parent := None\<rparr>) s1;
     max_left \<leftarrow> max_left_loop (heap s2) left_subtree;
     Some (s2\<lparr>root := Some left_subtree\<rparr>, max_left, right_subtree) }"

definition delete_attach :: "nat \<Rightarrow> state \<Rightarrow> state option" where
  "delete_attach right_subtree s = do {
     r \<leftarrow> root s;
     s1 \<leftarrow> upd_node r (\<lambda>n. n\<lparr>right := Some right_subtree\<rparr>) s;
     upd_node right_subtree (\<lambda>n. n\<lparr>parent := root s1\<rparr>) s1 }"

definition delete_both :: "nat \<Rightarrow> state \<Rightarrow> state option" where
  "delete_both node s = do {
     (s1, max_left, right_subtree) \<leftarrow> delete_detach node s;
     s2 \<leftarrow> splay (Some max_left) s1;
     delete_attach right_subtree s2 }"

text \<open>\<open>tree->root = c; if (tree->root) tree->root->parent = NULL\<close>.\<close>

definition set_root_child :: "nat option \<Rightarrow> state \<Rightarrow> state option" where
  "set_root_child c s =
     (case c of
        None \<Rightarrow> Some (s\<lparr>root := None\<rparr>)
      | Some r \<Rightarrow> upd_node r (\<lambda>n. n\<lparr>parent := None\<rparr>) (s\<lparr>root := Some r\<rparr>))"

text \<open>
  \<open>delete_chat\<close>: 0 when the key is not found; else the node is splayed to the root,
  replaced by its right child, by its left child, or by the two-children splice, freed,
  \<open>size\<close> is decremented and 1 is returned.
\<close>

definition delete_chat :: "string \<Rightarrow> state \<Rightarrow> (state \<times> int) option" where
  "delete_chat k s = do {
     found \<leftarrow> find_node k s;
     case found of
       None \<Rightarrow> Some (s, 0)
     | Some node \<Rightarrow> do {
         s1 \<leftarrow> splay (Some node) s;
         nn \<leftarrow> heap s1 node;
         s2 \<leftarrow> (if left nn = None then set_root_child (right nn) s1
                else if right nn = None then set_root_child (left nn) s1
                else delete_both node s1);
         let s3 = free_node node s2;
         Some (s3\<lparr>size_tree := size_tree s3 - 1\<rparr>, 1) } }"

subsection \<open>Traversal and listing\<close>

text \<open>
  The \<open>ChatList\<close> is the list of the addresses in \<open>nodes[0 .. count - 1]\<close>; its length is
  \<open>count\<close>.
\<close>

partial_function (option) collect_inorder ::
    "(nat \<Rightarrow> ChatNode option) \<Rightarrow> nat option \<Rightarrow> nat list \<Rightarrow> nat list option" where
  "collect_inorder h node lst =
     (case node of
        None \<Rightarrow> Some lst
      | Some a \<Rightarrow>
          if length lst \<ge> MAX_CHATS then Some lst
          else do {
            n \<leftarrow> h a;
            l1 \<leftarrow> collect_inorder h (left n) lst;
            collect_inorder h (right n) (if length l1 < MAX_CHATS then l1 @ [a] else l1) })"

declare collect_inorder.simps [code]

definition collect :: "state \<Rightarrow> nat list option" where
  "collect s = collect_inorder (heap s) (root s) []"

text \<open>The fields of a node, read from a state (empty or 0 when the address holds no node).\<close>

definition key_at :: "state \<Rightarrow> nat \<Rightarrow> string" where
  "key_at s a = (case heap s a of None \<Rightarrow> [] | Some n \<Rightarrow> chat_id n)"

definition title_at :: "state \<Rightarrow> nat \<Rightarrow> string" where
  "title_at s a = (case heap s a of None \<Rightarrow> [] | Some n \<Rightarrow> title n)"

definition timestamp_at :: "state \<Rightarrow> nat \<Rightarrow> int" where
  "timestamp_at s a = (case heap s a of None \<Rightarrow> 0 | Some n \<Rightarrow> timestamp n)"

definition collect_keys :: "state \<Rightarrow> string list option" where
  "collect_keys s = map_option (map (key_at s)) (collect s)"

text \<open>\<open>compare_by_timestamp\<close> on the two nodes that \<open>a\<close> and \<open>b\<close> point to.\<close>

definition compare_by_timestamp :: "state \<Rightarrow> nat \<Rightarrow> nat \<Rightarrow> int" where
  "compare_by_timestamp s a b =
     (if timestamp_at s b > timestamp_at s a then 1
      else if timestamp_at s b < timestamp_at s a then - 1
      else 0)"

text \<open>
  \<open>output_list\<close> collects the nodes in order, sorts the array with
  \<open>qsort(list.nodes, list.count, sizeof(ChatNode*), compare_by_timestamp)\<close> and prints the
  entries of the sorted array from first to last. \<open>qsort\<close> is the C library's, and its
  code is not part of the program. The model follows the GNU C library, which sorts an
  array of at most \<open>MAX_CHATS\<close> pointers by a merge sort (\<open>msort_with_tmp\<close>): an array
  of at most one element is left as it is; otherwise the first \<open>n / 2\<close> elements and the
  remaining ones are each sorted and then merged, the merge taking the next element of
  the first half whenever \<open>cmp(b1, b2) <= 0\<close>. \<open>merge_cmp\<close> is that merge and \<open>qsort\<close>
  that sort; \<open>output_list s\<close> is the sequence of nodes in the order in which
  \<open>output_list\<close> prints them.
\<close>

fun merge_cmp :: "('a \<Rightarrow> 'a \<Rightarrow> int) \<Rightarrow> 'a list \<Rightarrow> 'a list \<Rightarrow> 'a list" where
  "merge_cmp cmp [] ys = ys"
| "merge_cmp cmp (x # xs) [] = x # xs"
| "merge_cmp cmp (x # xs) (y # ys) =
     (if cmp x y \<le> 0 then x # merge_cmp cmp xs (y # ys)
      else y # merge_cmp cmp (x # xs) ys)"

function qsort :: "('a \<Rightarrow> 'a \<Rightarrow> int) \<Rightarrow> 'a list \<Rightarrow> 'a list" where
  "qsort cmp xs =
     (if length xs \<le> 1 then xs
      else merge_cmp cmp (qsort cmp (take (length xs div 2) xs))
                         (qsort cmp (drop (length xs div 2) xs)))"
  by pat_completeness auto
termination
  by (relation "measure (\<lambda>(cmp, xs). length xs)") auto

declare qsort.simps [simp del]

definition output_list :: "state \<Rightarrow> nat list option" where
  "output_list s = map_option (qsort (compare_by_timestamp s)) (collect s)"

subsection \<open>Escaping and parsing of titles\<close>

text \<open>
  \<open>json_escape\<close>: the output buffer is the list \<open>out\<close>, and \<open>j\<close> is its length.
\<close>

fun json_escape_loop :: "string \<Rightarrow> string \<Rightarrow> nat \<Rightarrow> string" where
  "json_escape_loop [] out max_len = out"
| "json_escape_loop (c # cs) out max_len =
     (if int (length out) < int max_len - 2 then
        (let out1 = (if c = CHR 0x22 \<or> c = CHR 0x5C then out @ [CHR 0x5C] else out);
             out2 = (if c = CHR 0x0A then out1 @ [CHR 0x5C, CHR ''n'']
                     else if c = CHR 0x0D then out1
                     else out1 @ [c])
         in json_escape_loop cs out2 max_len)
      else out)"

definition json_escape :: "string \<Rightarrow> nat \<Rightarrow> string" where
  "json_escape str max_len = json_escape_loop str [] max_len"

text \<open>
  The title loop of \<open>load_from_file\<close>, reading the text from \<open>title_ptr\<close> on into the
  buffer \<open>title\<close> (the list \<open>acc\<close>, of length \<open>i\<close>).
\<close>

fun load_title_loop :: "string \<Rightarrow> string \<Rightarrow> string" where
  "load_title_loop [] acc = acc"
| "load_title_loop [c] acc =
     (if length acc < MAX_TITLE_LEN - 1 then
        (if c = CHR 0x22 then acc else acc @ [c])
      else acc)"
| "load_title_loop (c # d # cs) acc =
     (if length acc < MAX_TITLE_LEN - 1 then
        (if c = CHR 0x5C \<and> d = CHR 0x22 then load_title_loop cs (acc @ [CHR 0x22])
         else if c = CHR 0x5C \<and> d = CHR ''n'' then load_title_loop cs (acc @ [CHR 0x0A])
         else if c = CHR 0x22 then acc
         else load_title_loop (d # cs) (acc @ [c]))
      else acc)"

section \<open>The tree that a heap represents\<close>

text \<open>
  The pointer structure below \<open>tree->root\<close> is described by a \<open>shape\<close>: a binary tree
  of addresses. \<open>repr h par t\<close> says that the heap \<open>h\<close> holds the shape \<open>t\<close> below a
  node (or \<open>NULL\<close>) \<open>par\<close>: every node of \<open>t\<close> is allocated, its \<open>left\<close> and \<open>right\<close>
  fields point to the roots of its subtrees and its \<open>parent\<close> field points back.
  \<open>abs_tree s t\<close> adds that \<open>tree->root\<close> is the root of \<open>t\<close> and that no address occurs
  twice, so that the structure is a tree and not a graph with sharing.
\<close>

datatype shape = Lf | Nd shape nat shape

fun inorder :: "shape \<Rightarrow> nat list" where
  "inorder Lf = []"
| "inorder (Nd l a r) = inorder l @ a # inorder r"

fun rootp :: "shape \<Rightarrow> nat option" where
  "rootp Lf = None"
| "rootp (Nd l a r) = Some a"

fun repr :: "(nat \<Rightarrow> ChatNode option) \<Rightarrow> nat option \<Rightarrow> shape \<Rightarrow> bool" where
  "repr h par Lf = True"
| "repr h par (Nd l a r) =
     (case h a of
        None \<Rightarrow> False
      | Some n \<Rightarrow> parent n = par \<and> left n = rootp l \<and> right n = rootp r
                 \<and> repr h (Some a) l \<and> repr h (Some a) r)"

definition abs_tree :: "state \<Rightarrow> shape \<Rightarrow> bool" where
  "abs_tree s t \<longleftrightarrow> repr (heap s) None t \<and> root s = rootp t \<and> distinct (inorder t)"

subsection \<open>Contexts\<close>

text \<open>
  \<open>splay\<close> works upwards from a node, so a position in a shape is given by the list of
  frames from the position up to the root: \<open>InL a r\<close> when the position is the left child
  of \<open>a\<close> (whose right subtree is \<open>r\<close>), \<open>InR l a\<close> when it is the right child of \<open>a\<close>.
  \<open>plug c t\<close> puts \<open>t\<close> at the position; \<open>before c\<close> and \<open>after c\<close> are the addresses
  that come before and after the position in the in-order sequence; \<open>repr_ctx h c hp\<close>
  says that the heap holds the context \<open>c\<close> around a subtree whose root pointer is \<open>hp\<close>.
\<close>

datatype frame = InL nat shape | InR shape nat

fun frame_addr :: "frame \<Rightarrow> nat" where
  "frame_addr (InL a r) = a"
| "frame_addr (InR l a) = a"

fun plug :: "frame list \<Rightarrow> shape \<Rightarrow> shape" where
  "plug [] t = t"
| "plug (InL a r # c) t = plug c (Nd t a r)"
| "plug (InR l a # c) t = plug c (Nd l a t)"

fun hole_par :: "frame list \<Rightarrow> nat option" where
  "hole_par [] = None"
| "hole_par (InL a r # c) = Some a"
| "hole_par (InR l a # c) = Some a"

fun before :: "frame list \<Rightarrow> nat list" where
  "before [] = []"
| "before (InL a r # c) = before c"
| "before (InR l a # c) = before c @ inorder l @ [a]"

fun after :: "frame list \<Rightarrow> nat list" where
  "after [] = []"
| "after (InL a r # c) = a # inorder r @ after c"
| "after (InR l a # c) = after c"

fun repr_ctx :: "(nat \<Rightarrow> ChatNode option) \<Rightarrow> frame list \<Rightarrow> nat option \<Rightarrow> bool" where
  "repr_ctx h [] hp = True"
| "repr_ctx h (InL a r # c) hp =
     (case h a of
        None \<Rightarrow> False
      | Some n \<Rightarrow> parent n = hole_par c \<and> left n = hp \<and> right n = rootp r
                 \<and> repr h (Some a) r \<and> repr_ctx h c (Some a))"
| "repr_ctx h (InR l a # c) hp =
     (case h a of
        None \<Rightarrow> False
      | Some n \<Rightarrow> parent n = hole_par c \<and> left n = rootp l \<and> right n = hp
                 \<and> repr h (Some a) l \<and> repr_ctx h c (Some a))"

fun ctx_root :: "frame list \<Rightarrow> nat option \<Rightarrow> nat option" where
  "ctx_root [] hp = hp"
| "ctx_root (InL a r # c) hp = ctx_root c (Some a)"
| "ctx_root (InR l a # c) hp = ctx_root c (Some a)"

subsection \<open>What restructuring leaves alone\<close>

text \<open>
  \<open>relinked X s s'\<close>: from \<open>s\<close> to \<open>s'\<close> only pointer fields of nodes in \<open>X\<close> changed.
  The same addresses are allocated, every node keeps its key, title and timestamp, and
  \<open>size\<close> and the allocator are untouched.
\<close>

definition payload :: "ChatNode \<Rightarrow> string \<times> string \<times> int" where
  "payload n = (chat_id n, title n, timestamp n)"

definition relinked :: "nat set \<Rightarrow> state \<Rightarrow> state \<Rightarrow> bool" where
  "relinked X s s' \<longleftrightarrow>
     size_tree s' = size_tree s \<and> next_addr s' = next_addr s
     \<and> (\<forall>a. a \<notin> X \<longrightarrow> heap s' a = heap s a)
     \<and> (\<forall>a. map_option payload (heap s' a) = map_option payload (heap s a))"

text \<open>\<open>returns m P\<close>: the computation \<open>m\<close> has a result, and the result satisfies \<open>P\<close>.\<close>

definition returns :: "'a option \<Rightarrow> ('a \<Rightarrow> bool) \<Rightarrow> bool" where
  "returns m P \<longleftrightarrow> (case m of None \<Rightarrow> False | Some x \<Rightarrow> P x)"

definition splayed ::
    "nat \<Rightarrow> nat list \<Rightarrow> state \<Rightarrow> state \<Rightarrow> frame list \<Rightarrow> shape \<Rightarrow> shape \<Rightarrow> bool" where
  "splayed x xs s s' c A B \<longleftrightarrow>
     abs_tree s' (plug c (Nd A x B)) \<and> inorder (plug c (Nd A x B)) = xs \<and> relinked (set xs) s s'"

subsection \<open>Well-formed trees\<close>

text \<open>
  \<open>keys s t\<close> is the in-order key sequence. A state is a well-formed tree when its
  pointers form a tree, \<open>size\<close> is the number of nodes, every node was handed out by the
  allocator, keys and titles fit their buffers (at most \<open>MAX_ID_LEN - 1\<close> and
  \<open>MAX_TITLE_LEN - 1\<close> characters before the terminating NUL), and the keys ascend
  in-order. The order is the non-strict one: it is what every operation of the program
  keeps for every input (\<open>run_wf_tree\<close> below). That the keys are also pairwise different
  is stated separately, as \<open>distinct (keys s t)\<close>, where a claim needs it.
\<close>

definition keys :: "state \<Rightarrow> shape \<Rightarrow> string list" where
  "keys s t = map (key_at s) (inorder t)"

definition wf_tree :: "state \<Rightarrow> shape \<Rightarrow> bool" where
  "wf_tree s t \<longleftrightarrow>
     abs_tree s t
     \<and> size_tree s = int (length (inorder t))
     \<and> (\<forall>a\<in>set (inorder t).
           a < next_addr s \<and> length (key_at s a) < MAX_ID_LEN \<and> length (title_at s a) < MAX_TITLE_LEN)
     \<and> sorted (keys s t)"

definition left_at :: "state \<Rightarrow> nat \<Rightarrow> nat option" where
  "left_at s a = (case heap s a of None \<Rightarrow> None | Some n \<Rightarrow> left n)"

definition right_at :: "state \<Rightarrow> nat \<Rightarrow> nat option" where
  "right_at s a = (case heap s a of None \<Rightarrow> None | Some n \<Rightarrow> right n)"

definition parent_at :: "state \<Rightarrow> nat \<Rightarrow> nat option" where
  "parent_at s a = (case heap s a of None \<Rightarrow> None | Some n \<Rightarrow> parent n)"

text \<open>The node that \<open>create_node\<close> stores.\<close>

definition fresh_node :: "string \<Rightarrow> string \<Rightarrow> int \<Rightarrow> ChatNode" where
  "fresh_node k ttl ts =
     \<lparr>chat_id = take 63 k, title = take 255 ttl, timestamp = ts,
      left = None, right = None, parent = None\<rparr>"

subsection \<open>Sequences of operations\<close>

datatype op = Insert string string int | Delete string

fun apply_op :: "op \<Rightarrow> state \<Rightarrow> state option" where
  "apply_op (Insert k ttl ts) s = map_option fst (insert_chat k ttl ts s)"
| "apply_op (Delete k) s = map_option fst (delete_chat k s)"

fun run :: "op list \<Rightarrow> state \<Rightarrow> state option" where
  "run [] s = Some s"
| "run (x # xs) s = apply_op x s \<bind> run xs"

fun short_key_op :: "op \<Rightarrow> bool" where
  "short_key_op (Insert k ttl ts) = (length k < MAX_ID_LEN)"
| "short_key_op (Delete k) = True"

subsection \<open>The listing of \<open>output_list\<close>\<close>

text \<open>
  The listing as the specification words it: the stable sort by descending timestamp,
  where entries with equal timestamps keep their in-order positions.
\<close>

definition stable_by_timestamp :: "state \<Rightarrow> nat list \<Rightarrow> nat list" where
  "stable_by_timestamp s xs = sort_key (\<lambda>a. - timestamp_at s a) xs"

subsection \<open>Titles through the file\<close>

text \<open>
  \<open>save_to_file\<close> prints each entry with the format
  \<open>{"id":"%s","title":"%s","timestamp":%ld}\<close>, the title escaped by \<open>json_escape\<close> into
  a buffer of \<open>2 * MAX_TITLE_LEN\<close> bytes. \<open>saved_title_text ttl rest\<close> is the text of the
  file from the first character of the title on: the escaped title, the closing quote,
  and the rest of the file. \<open>title_round_trip\<close> is the title that \<open>load_from_file\<close> reads
  back from it. \<open>escaped\<close> is the escaping of \<open>json_escape\<close> without the length limit.
\<close>

definition saved_title_text :: "string \<Rightarrow> string \<Rightarrow> string" where
  "saved_title_text ttl rest = json_escape ttl (2 * MAX_TITLE_LEN) @ CHR 0x22 # rest"

definition title_round_trip :: "string \<Rightarrow> string \<Rightarrow> string" where
  "title_round_trip ttl rest = load_title_loop (saved_title_text ttl rest) []"

fun escaped :: "string \<Rightarrow> string" where
  "escaped [] = []"
| "escaped (c # cs) =
     (if c = CHR 0x22 then [CHR 0x5C, CHR 0x22]
      else if c = CHR 0x5C then [CHR 0x5C, CHR 0x5C]
      else if c = CHR 0x0A then [CHR 0x5C, CHR ''n'']
      else if c = CHR 0x0D then []
      else [c]) @ escaped cs"

subsection \<open>Example states\<close>

text \<open>
  The three sessions of the specification's scenario, with \<open>s2\<close> at the root, and a tree
  of \<open>n\<close> nodes that is one chain of right children, with the keys \<open>000\<close>, \<open>001\<close>, ...
\<close>

definition example_state :: state where
  "example_state =
     \<lparr>heap = (\<lambda>a. None)
        (0 := Some \<lparr>chat_id = ''s1'', title = ''Trip Planning'', timestamp = 100,
                    left = None, right = None, parent = Some 1\<rparr>,
         1 := Some \<lparr>chat_id = ''s2'', title = ''Recipe Ideas'', timestamp = 200,
                    left = Some 0, right = Some 2, parent = None\<rparr>,
         2 := Some \<lparr>chat_id = ''s3'', title = ''Code Review'', timestamp = 150,
                    left = None, right = None, parent = Some 1\<rparr>),
      root = Some 1, size_tree = 3, next_addr = 3\<rparr>"

definition example_shape :: shape where
  "example_shape = Nd (Nd Lf 0 Lf) 1 (Nd Lf 2 Lf)"

fun spine :: "nat \<Rightarrow> nat \<Rightarrow> shape" where
  "spine i 0 = Lf"
| "spine i (Suc n) = Nd Lf i (spine (Suc i) n)"

definition digits3 :: "nat \<Rightarrow> string" where
  "digits3 a = [char_of (48 + a div 100), char_of (48 + (a div 10) mod 10), char_of (48 + a mod 10)]"

definition spine_state :: "nat \<Rightarrow> state" where
  "spine_state n =
     \<lparr>heap = (\<lambda>a. if a < n
                 then Some \<lparr>chat_id = digits3 a, title = [], timestamp = 0, left = None,
                            right = (if Suc a < n then Some (Suc a) else None),
                            parent = (if a = 0 then None else Some (a - 1))\<rparr>
                 else None),
      root = (if n = 0 then None else Some 0), size_tree = int n, next_addr = n\<rparr>"

section \<open>Proofs\<close>

subsection \<open>Shapes, contexts and heaps\<close>

lemma inorder_plug: "inorder (plug c t) = before c @ inorder t @ after c"
  by (induction c t rule: plug.induct) auto

lemma rootp_plug: "rootp (plug c t) = ctx_root c (rootp t)"
  by (induction c t rule: plug.induct) auto

lemma repr_plug: "repr h None (plug c t) \<longleftrightarrow> repr h (hole_par c) t \<and> repr_ctx h c (rootp t)"
  by (induction c t rule: plug.induct) (auto split: option.splits)

lemma repr_upd_outside [simp]: "a \<notin> set (inorder t) \<Longrightarrow> repr (h(a := v)) par t = repr h par t"
  by (induction t arbitrary: par) (auto split: option.splits)

lemma repr_ctx_upd_outside [simp]:
  "a \<notin> set (before c) \<Longrightarrow> a \<notin> set (after c) \<Longrightarrow> repr_ctx (h(a := v)) c hp = repr_ctx h c hp"
  by (induction h c hp rule: repr_ctx.induct) (auto split: option.splits)

lemma ctx_root_same: "c \<noteq> [] \<Longrightarrow> ctx_root c hp = ctx_root c hp'"
  by (induction c hp rule: ctx_root.induct) (auto)

lemma returns_Some [simp]: "returns (Some x) P = P x"
  by (simp add: returns_def)

lemma returns_None [simp]: "returns None P = False"
  by (simp add: returns_def)

lemma returnsE: "returns m P \<Longrightarrow> (\<And>x. m = Some x \<Longrightarrow> P x \<Longrightarrow> R) \<Longrightarrow> R"
  by (cases m) auto

lemma returns_weaken: "returns m P \<Longrightarrow> (\<And>x. P x \<Longrightarrow> Q x) \<Longrightarrow> returns m Q"
  by (cases m) auto

subsection \<open>Rotations\<close>

text \<open>
  First what a rotation does to the heap, from a description of the few nodes it touches;
  then that it turns the tree \<open>plug c (Nd (Nd A y B) x C)\<close> into
  \<open>plug c (Nd A y (Nd B x C))\<close>, and back for the left rotation.
\<close>

lemma rotate_right_exec:
  assumes hx: "heap s x = Some xn" and lx: "left xn = Some y"
    and hy: "heap s y = Some yn" and xy: "x \<noteq> y"
    and hb: "\<forall>b. right yn = Some b \<longrightarrow> b \<noteq> x \<and> b \<noteq> y \<and> heap s b \<noteq> None"
    and hp: "\<forall>p. parent xn = Some p \<longrightarrow>
               p \<noteq> x \<and> p \<noteq> y \<and> right yn \<noteq> Some p \<and> heap s p \<noteq> None"
  shows "returns (rotate_right x s) (\<lambda>s'.
           size_tree s' = size_tree s \<and> next_addr s' = next_addr s
         \<and> root s' = (if parent xn = None then Some y else root s)
         \<and> heap s' x = Some (xn\<lparr>left := right yn, parent := Some y\<rparr>)
         \<and> heap s' y = Some (yn\<lparr>right := Some x, parent := parent xn\<rparr>)
         \<and> (\<forall>b bn. right yn = Some b \<longrightarrow> heap s b = Some bn \<longrightarrow>
               heap s' b = Some (bn\<lparr>parent := Some x\<rparr>))
         \<and> (\<forall>p pn. parent xn = Some p \<longrightarrow> heap s p = Some pn \<longrightarrow>
               heap s' p = Some (if left pn = Some x then pn\<lparr>left := Some y\<rparr>
                                 else pn\<lparr>right := Some y\<rparr>))
         \<and> (\<forall>a. a \<noteq> x \<longrightarrow> a \<noteq> y \<longrightarrow> right yn \<noteq> Some a \<longrightarrow> parent xn \<noteq> Some a \<longrightarrow>
               heap s' a = heap s a))"
proof (cases "right yn")
  case None
  show ?thesis
  proof (cases "parent xn")
    case N2: None
    with None hx lx hy xy show ?thesis
      by (simp add: rotate_right_def upd_node_def)
  next
    case (Some p)
    with hp obtain pn where "heap s p = Some pn" "p \<noteq> x" "p \<noteq> y" by auto
    with Some None hx lx hy xy show ?thesis
      by (simp add: rotate_right_def upd_node_def)
  qed
next
  case (Some b)
  with hb obtain bn where b: "heap s b = Some bn" "b \<noteq> x" "b \<noteq> y" by auto
  show ?thesis
  proof (cases "parent xn")
    case None
    with Some b hx lx hy xy show ?thesis
      by (simp add: rotate_right_def upd_node_def)
  next
    case P: (Some p)
    with hp Some obtain pn where "heap s p = Some pn" "p \<noteq> x" "p \<noteq> y" "p \<noteq> b" by auto
    with P Some b hx lx hy xy show ?thesis
      by (simp add: rotate_right_def upd_node_def)
  qed
qed

lemma rotate_left_exec:
  assumes hx: "heap s x = Some xn" and lx: "right xn = Some y"
    and hy: "heap s y = Some yn" and xy: "x \<noteq> y"
    and hb: "\<forall>b. left yn = Some b \<longrightarrow> b \<noteq> x \<and> b \<noteq> y \<and> heap s b \<noteq> None"
    and hp: "\<forall>p. parent xn = Some p \<longrightarrow>
               p \<noteq> x \<and> p \<noteq> y \<and> left yn \<noteq> Some p \<and> heap s p \<noteq> None"
  shows "returns (rotate_left x s) (\<lambda>s'.
           size_tree s' = size_tree s \<and> next_addr s' = next_addr s
         \<and> root s' = (if parent xn = None then Some y else root s)
         \<and> heap s' x = Some (xn\<lparr>right := left yn, parent := Some y\<rparr>)
         \<and> heap s' y = Some (yn\<lparr>left := Some x, parent := parent xn\<rparr>)
         \<and> (\<forall>b bn. left yn = Some b \<longrightarrow> heap s b = Some bn \<longrightarrow>
               heap s' b = Some (bn\<lparr>parent := Some x\<rparr>))
         \<and> (\<forall>p pn. parent xn = Some p \<longrightarrow> heap s p = Some pn \<longrightarrow>
               heap s' p = Some (if left pn = Some x then pn\<lparr>left := Some y\<rparr>
                                 else pn\<lparr>right := Some y\<rparr>))
         \<and> (\<forall>a. a \<noteq> x \<longrightarrow> a \<noteq> y \<longrightarrow> left yn \<noteq> Some a \<longrightarrow> parent xn \<noteq> Some a \<longrightarrow>
               heap s' a = heap s a))"
proof (cases "left yn")
  case None
  show ?thesis
  proof (cases "parent xn")
    case N2: None
    with None hx lx hy xy show ?thesis
      by (simp add: rotate_left_def upd_node_def)
  next
    case (Some p)
    with hp obtain pn where "heap s p = Some pn" "p \<noteq> x" "p \<noteq> y" by auto
    with Some None hx lx hy xy show ?thesis
      by (simp add: rotate_left_def upd_node_def)
  qed
next
  case (Some b)
  with hb obtain bn where b: "heap s b = Some bn" "b \<noteq> x" "b \<noteq> y" by auto
  show ?thesis
  proof (cases "parent xn")
    case None
    with Some b hx lx hy xy show ?thesis
      by (simp add: rotate_left_def upd_node_def)
  next
    case P: (Some p)
    with hp Some obtain pn where "heap s p = Some pn" "p \<noteq> x" "p \<noteq> y" "p \<noteq> b" by auto
    with P Some b hx lx hy xy show ?thesis
      by (simp add: rotate_left_def upd_node_def)
  qed
qed

lemma rootp_in: "rootp t = Some a \<Longrightarrow> a \<in> set (inorder t)"
  by (cases t) auto

lemma hole_par_in: "hole_par c = Some p \<Longrightarrow> p \<in> set (before c) \<union> set (after c)"
  by (cases c rule: hole_par.cases) auto

lemma repr_root: "repr h par t \<Longrightarrow> rootp t = Some a \<Longrightarrow> \<exists>n. h a = Some n \<and> parent n = par"
  by (cases t) (auto split: option.splits)

lemma repr_ctx_top: "repr_ctx h c hp \<Longrightarrow> hole_par c = Some p \<Longrightarrow> \<exists>n. h p = Some n"
  by (cases c rule: hole_par.cases) (auto split: option.splits)

lemma repr_frame:
  "repr h par t \<Longrightarrow> (\<And>a. a \<in> set (inorder t) \<Longrightarrow> h' a = h a) \<Longrightarrow> repr h' par t"
  by (induction t arbitrary: par) (auto split: option.splits)

lemma repr_ctx_frame:
  "repr_ctx h c hp \<Longrightarrow> (\<And>a. a \<in> set (before c) \<union> set (after c) \<Longrightarrow> h' a = h a)
     \<Longrightarrow> repr_ctx h' c hp"
proof (induction h c hp rule: repr_ctx.induct)
  case (1 h hp)
  then show ?case by simp
next
  case (2 h a r c hp)
  from 2 have "repr h' (Some a) r" "h' a = h a"
    by (auto split: option.splits intro: repr_frame)
  moreover from 2 have "repr_ctx h' c (Some a)" by (auto split: option.splits)
  ultimately show ?case using 2(2) by (auto split: option.splits)
next
  case (3 h l a c hp)
  from 3 have "repr h' (Some a) l" "h' a = h a"
    by (auto split: option.splits intro: repr_frame)
  moreover from 3 have "repr_ctx h' c (Some a)" by (auto split: option.splits)
  ultimately show ?case using 3(2) by (auto split: option.splits)
qed

lemma repr_reparent:
  assumes "repr h par t" and "distinct (inorder t)"
    and "\<And>a. a \<in> set (inorder t) \<Longrightarrow> rootp t \<noteq> Some a \<Longrightarrow> h' a = h a"
    and "\<And>a n. rootp t = Some a \<Longrightarrow> h a = Some n \<Longrightarrow> h' a = Some (n\<lparr>parent := par'\<rparr>)"
  shows "repr h' par' t"
proof (cases t)
  case Lf
  then show ?thesis by simp
next
  case (Nd l a r)
  with assms(1) obtain n where n: "h a = Some n" "left n = rootp l" "right n = rootp r"
      "repr h (Some a) l" "repr h (Some a) r"
    by (auto split: option.splits)
  from Nd assms(2) have d: "a \<notin> set (inorder l)" "a \<notin> set (inorder r)" by auto
  have "repr h' (Some a) l"
    using n(4) by (rule repr_frame) (use Nd d assms(3) in auto)
  moreover have "repr h' (Some a) r"
    using n(5) by (rule repr_frame) (use Nd d assms(3) in auto)
  moreover have "h' a = Some (n\<lparr>parent := par'\<rparr>)"
    using assms(4) Nd n(1) by simp
  ultimately show ?thesis using Nd n by simp
qed

lemma repr_ctx_rehole:
  assumes "repr_ctx h c (Some x)" and "distinct (before c @ after c)"
    and "x \<notin> set (before c)"
    and "\<And>a. a \<in> set (before c) \<union> set (after c) \<Longrightarrow> hole_par c \<noteq> Some a \<Longrightarrow> h' a = h a"
    and "\<And>p pn. hole_par c = Some p \<Longrightarrow> h p = Some pn \<Longrightarrow>
           h' p = Some (if left pn = Some x then pn\<lparr>left := hp'\<rparr> else pn\<lparr>right := hp'\<rparr>)"
  shows "repr_ctx h' c hp'"
proof (cases c rule: hole_par.cases)
  case 1
  then show ?thesis by simp
next
  case (2 p r c')
  with assms(1) obtain pn where pn: "h p = Some pn" "parent pn = hole_par c'" "left pn = Some x"
      "right pn = rootp r" "repr h (Some p) r" "repr_ctx h c' (Some p)"
    by (auto split: option.splits)
  from 2 assms(2) have d: "p \<notin> set (inorder r)" "p \<notin> set (before c')" "p \<notin> set (after c')"
    by auto
  have "repr h' (Some p) r"
    using pn(5) by (rule repr_frame) (use 2 d assms(4) in auto)
  moreover have "repr_ctx h' c' (Some p)"
    using pn(6) by (rule repr_ctx_frame) (use 2 d assms(4) in auto)
  moreover have "h' p = Some (pn\<lparr>left := hp'\<rparr>)"
    using assms(5)[of p pn] 2 pn by simp
  ultimately show ?thesis using 2 pn by simp
next
  case (3 l p c')
  with assms(1) obtain pn where pn: "h p = Some pn" "parent pn = hole_par c'" "left pn = rootp l"
      "right pn = Some x" "repr h (Some p) l" "repr_ctx h c' (Some p)"
    by (auto split: option.splits)
  from 3 assms(2) have d: "p \<notin> set (inorder l)" "p \<notin> set (before c')" "p \<notin> set (after c')"
    by auto
  from 3 assms(3) have "x \<notin> set (inorder l)" by simp
  with pn(3) have nl: "left pn \<noteq> Some x" using rootp_in[of l x] by auto
  have "repr h' (Some p) l"
    using pn(5) by (rule repr_frame) (use 3 d assms(4) in auto)
  moreover have "repr_ctx h' c' (Some p)"
    using pn(6) by (rule repr_ctx_frame) (use 3 d assms(4) in auto)
  moreover have "h' p = Some (pn\<lparr>right := hp'\<rparr>)"
    using assms(5)[of p pn] 3 pn nl by simp
  ultimately show ?thesis using 3 pn by simp
qed

lemma payload_upd [simp]:
  "payload (n\<lparr>left := l\<rparr>) = payload n"
  "payload (n\<lparr>right := r\<rparr>) = payload n"
  "payload (n\<lparr>parent := p\<rparr>) = payload n"
  by (simp_all add: payload_def)

lemma rotate_right_abs:
  assumes "abs_tree s (plug c (Nd (Nd A y B) x C))"
  shows "returns (rotate_right x s) (\<lambda>s'. abs_tree s' (plug c (Nd A y (Nd B x C)))
           \<and> relinked (set (inorder (plug c (Nd (Nd A y B) x C)))) s s')"
proof -
  let ?h = "heap s"
  from assms have r: "repr ?h (hole_par c) (Nd (Nd A y B) x C)" and rc: "repr_ctx ?h c (Some x)"
    and rt: "root s = ctx_root c (Some x)"
    and d: "distinct (before c @ (inorder A @ y # inorder B) @ x # inorder C @ after c)"
    by (simp_all add: abs_tree_def repr_plug rootp_plug inorder_plug)
  from r obtain xn yn where xn: "?h x = Some xn" "parent xn = hole_par c" "left xn = Some y"
      "right xn = rootp C" "repr ?h (Some x) C"
    and yn: "?h y = Some yn" "parent yn = Some x" "left yn = rootp A" "right yn = rootp B"
      "repr ?h (Some y) A" "repr ?h (Some y) B"
    by (auto split: option.splits)
  from d have xy: "x \<noteq> y" by auto
  have hb: "\<forall>b. right yn = Some b \<longrightarrow> b \<noteq> x \<and> b \<noteq> y \<and> ?h b \<noteq> None"
  proof (intro allI impI)
    fix b assume "right yn = Some b"
    with yn have b: "rootp B = Some b" by simp
    from rootp_in[OF b] d have "b \<noteq> x" "b \<noteq> y" by auto
    moreover from repr_root[OF yn(6) b] have "?h b \<noteq> None" by auto
    ultimately show "b \<noteq> x \<and> b \<noteq> y \<and> ?h b \<noteq> None" by simp
  qed
  have hp: "\<forall>p. parent xn = Some p \<longrightarrow>
               p \<noteq> x \<and> p \<noteq> y \<and> right yn \<noteq> Some p \<and> ?h p \<noteq> None"
  proof (intro allI impI)
    fix p assume "parent xn = Some p"
    with xn have p: "hole_par c = Some p" by simp
    from hole_par_in[OF p] d have "p \<noteq> x" "p \<noteq> y" "p \<notin> set (inorder B)" by auto
    moreover from repr_ctx_top[OF rc p] have "?h p \<noteq> None" by auto
    ultimately show "p \<noteq> x \<and> p \<noteq> y \<and> right yn \<noteq> Some p \<and> ?h p \<noteq> None"
      using rootp_in[of B p] yn(4) by auto
  qed
  show ?thesis
  proof (rule returns_weaken[OF rotate_right_exec[OF xn(1) xn(3) yn(1) xy hb hp]], elim conjE)
    fix s' :: state
    let ?h' = "heap s'"
    assume sz: "size_tree s' = size_tree s" and na: "next_addr s' = next_addr s"
      and rt': "root s' = (if parent xn = None then Some y else root s)"
      and hx': "?h' x = Some (xn\<lparr>left := right yn, parent := Some y\<rparr>)"
      and hy': "?h' y = Some (yn\<lparr>right := Some x, parent := parent xn\<rparr>)"
      and hb': "\<forall>b bn. right yn = Some b \<longrightarrow> ?h b = Some bn \<longrightarrow>
               ?h' b = Some (bn\<lparr>parent := Some x\<rparr>)"
      and hp': "\<forall>p pn. parent xn = Some p \<longrightarrow> ?h p = Some pn \<longrightarrow>
               ?h' p = Some (if left pn = Some x then pn\<lparr>left := Some y\<rparr>
                             else pn\<lparr>right := Some y\<rparr>)"
      and fr: "\<forall>a. a \<noteq> x \<longrightarrow> a \<noteq> y \<longrightarrow> right yn \<noteq> Some a \<longrightarrow> parent xn \<noteq> Some a \<longrightarrow>
               ?h' a = ?h a"
    have same: "?h' a = ?h a" if "a \<noteq> x" "a \<noteq> y" "rootp B \<noteq> Some a" "hole_par c \<noteq> Some a" for a
      using fr that xn(2) yn(4) by simp
    have same1: "?h' a = ?h a"
      if "a \<noteq> x" "a \<noteq> y" "a \<notin> set (inorder B)" "a \<notin> set (before c)" "a \<notin> set (after c)" for a
      using that rootp_in[of B a] hole_par_in[of c a] by (intro same) auto
    have sameB: "?h' a = ?h a" if "a \<in> set (inorder B)" "rootp B \<noteq> Some a" for a
    proof (rule same)
      show "a \<noteq> x" "a \<noteq> y" using that d by auto
      show "rootp B \<noteq> Some a" by fact
      show "hole_par c \<noteq> Some a" using that d hole_par_in[of c a] by auto
    qed
    have samec: "?h' a = ?h a" if "a \<in> set (before c) \<union> set (after c)" "hole_par c \<noteq> Some a" for a
    proof (rule same)
      show "a \<noteq> x" "a \<noteq> y" using that d by auto
      show "hole_par c \<noteq> Some a" by fact
      show "rootp B \<noteq> Some a" using that d rootp_in[of B a] by auto
    qed
    have A': "repr ?h' (Some y) A"
      by (rule repr_frame[OF yn(5)], rule same1) (use d in auto)
    have C': "repr ?h' (Some x) C"
      by (rule repr_frame[OF xn(5)], rule same1) (use d in auto)
    have B': "repr ?h' (Some x) B"
      using yn(6)
    proof (rule repr_reparent)
      show "distinct (inorder B)" using d by simp
      show "?h' a = ?h a" if "a \<in> set (inorder B)" "rootp B \<noteq> Some a" for a
        using that by (rule sameB)
      show "?h' a = Some (n\<lparr>parent := Some x\<rparr>)" if "rootp B = Some a" "?h a = Some n" for a n
        using that hb' yn(4) by simp
    qed
    have c': "repr_ctx ?h' c (Some y)"
      using rc
    proof (rule repr_ctx_rehole)
      show "distinct (before c @ after c)" using d by auto
      show "x \<notin> set (before c)" using d by auto
      show "?h' a = ?h a" if "a \<in> set (before c) \<union> set (after c)" "hole_par c \<noteq> Some a" for a
        using that by (rule samec)
      show "?h' p = Some (if left pn = Some x then pn\<lparr>left := Some y\<rparr> else pn\<lparr>right := Some y\<rparr>)"
        if "hole_par c = Some p" "?h p = Some pn" for p pn
        using that hp' xn(2) by simp
    qed
    have "repr ?h' None (plug c (Nd A y (Nd B x C)))"
      using A' B' C' c' hx' hy' xn yn by (simp add: repr_plug)
    moreover have "root s' = rootp (plug c (Nd A y (Nd B x C)))"
      using rt' rt xn(2) by (cases c rule: hole_par.cases) (simp_all add: rootp_plug)
    moreover have "distinct (inorder (plug c (Nd A y (Nd B x C))))"
      using d by (simp add: inorder_plug)
    ultimately have "abs_tree s' (plug c (Nd A y (Nd B x C)))"
      by (simp add: abs_tree_def)
    moreover have "relinked (set (inorder (plug c (Nd (Nd A y B) x C)))) s s'"
      unfolding relinked_def
    proof (intro conjI allI impI)
      show "size_tree s' = size_tree s" by fact
      show "next_addr s' = next_addr s" by fact
      show "?h' a = ?h a" if "a \<notin> set (inorder (plug c (Nd (Nd A y B) x C)))" for a
        by (rule same1) (use that in \<open>auto simp: inorder_plug\<close>)
      show "map_option payload (?h' a) = map_option payload (?h a)" for a
      proof -
        consider "a = x" | "a = y" | "a \<noteq> x" "a \<noteq> y" "rootp B = Some a"
          | "a \<noteq> x" "a \<noteq> y" "rootp B \<noteq> Some a" "hole_par c = Some a"
          | "a \<noteq> x" "a \<noteq> y" "rootp B \<noteq> Some a" "hole_par c \<noteq> Some a" by blast
        then show ?thesis
        proof cases
          case 1 then show ?thesis using hx' xn(1) by simp
        next
          case 2 then show ?thesis using hy' yn(1) by simp
        next
          case 3
          from repr_root[OF yn(6) 3(3)] obtain n where "?h a = Some n" by auto
          then show ?thesis using hb' 3 yn(4) by simp
        next
          case 4
          from repr_ctx_top[OF rc 4(4)] obtain n where "?h a = Some n" by auto
          then show ?thesis using hp' 4 xn(2) by simp
        next
          case 5 then show ?thesis using same by simp
        qed
      qed
    qed
    ultimately show "abs_tree s' (plug c (Nd A y (Nd B x C)))
           \<and> relinked (set (inorder (plug c (Nd (Nd A y B) x C)))) s s'" by simp
  qed
qed

lemma rotate_left_abs:
  assumes "abs_tree s (plug c (Nd A x (Nd B y C)))"
  shows "returns (rotate_left x s) (\<lambda>s'. abs_tree s' (plug c (Nd (Nd A x B) y C))
           \<and> relinked (set (inorder (plug c (Nd A x (Nd B y C))))) s s')"
proof -
  let ?h = "heap s"
  from assms have r: "repr ?h (hole_par c) (Nd A x (Nd B y C))" and rc: "repr_ctx ?h c (Some x)"
    and rt: "root s = ctx_root c (Some x)"
    and d: "distinct (before c @ (inorder A @ x # inorder B @ y # inorder C) @ after c)"
    by (simp_all add: abs_tree_def repr_plug rootp_plug inorder_plug)
  from r obtain xn yn where xn: "?h x = Some xn" "parent xn = hole_par c" "right xn = Some y"
      "left xn = rootp A" "repr ?h (Some x) A"
    and yn: "?h y = Some yn" "parent yn = Some x" "right yn = rootp C" "left yn = rootp B"
      "repr ?h (Some y) C" "repr ?h (Some y) B"
    by (auto split: option.splits)
  from d have xy: "x \<noteq> y" by auto
  have hb: "\<forall>b. left yn = Some b \<longrightarrow> b \<noteq> x \<and> b \<noteq> y \<and> ?h b \<noteq> None"
  proof (intro allI impI)
    fix b assume "left yn = Some b"
    with yn have b: "rootp B = Some b" by simp
    from rootp_in[OF b] d have "b \<noteq> x" "b \<noteq> y" by auto
    moreover from repr_root[OF yn(6) b] have "?h b \<noteq> None" by auto
    ultimately show "b \<noteq> x \<and> b \<noteq> y \<and> ?h b \<noteq> None" by simp
  qed
  have hp: "\<forall>p. parent xn = Some p \<longrightarrow>
               p \<noteq> x \<and> p \<noteq> y \<and> left yn \<noteq> Some p \<and> ?h p \<noteq> None"
  proof (intro allI impI)
    fix p assume "parent xn = Some p"
    with xn have p: "hole_par c = Some p" by simp
    from hole_par_in[OF p] d have "p \<noteq> x" "p \<noteq> y" "p \<notin> set (inorder B)" by auto
    moreover from repr_ctx_top[OF rc p] have "?h p \<noteq> None" by auto
    ultimately show "p \<noteq> x \<and> p \<noteq> y \<and> left yn \<noteq> Some p \<and> ?h p \<noteq> None"
      using rootp_in[of B p] yn(4) by auto
  qed
  show ?thesis
  proof (rule returns_weaken[OF rotate_left_exec[OF xn(1) xn(3) yn(1) xy hb hp]], elim conjE)
    fix s' :: state
    let ?h' = "heap s'"
    assume sz: "size_tree s' = size_tree s" and na: "next_addr s' = next_addr s"
      and rt': "root s' = (if parent xn = None then Some y else root s)"
      and hx': "?h' x = Some (xn\<lparr>right := left yn, parent := Some y\<rparr>)"
      and hy': "?h' y = Some (yn\<lparr>left := Some x, parent := parent xn\<rparr>)"
      and hb': "\<forall>b bn. left yn = Some b \<longrightarrow> ?h b = Some bn \<longrightarrow>
               ?h' b = Some (bn\<lparr>parent := Some x\<rparr>)"
      and hp': "\<forall>p pn. parent xn = Some p \<longrightarrow> ?h p = Some pn \<longrightarrow>
               ?h' p = Some (if left pn = Some x then pn\<lparr>left := Some y\<rparr>
                             else pn\<lparr>right := Some y\<rparr>)"
      and fr: "\<forall>a. a \<noteq> x \<longrightarrow> a \<noteq> y \<longrightarrow> left yn \<noteq> Some a \<longrightarrow> parent xn \<noteq> Some a \<longrightarrow>
               ?h' a = ?h a"
    have same: "?h' a = ?h a" if "a \<noteq> x" "a \<noteq> y" "rootp B \<noteq> Some a" "hole_par c \<noteq> Some a" for a
      using fr that xn(2) yn(4) by simp
    have same1: "?h' a = ?h a"
      if "a \<noteq> x" "a \<noteq> y" "a \<notin> set (inorder B)" "a \<notin> set (before c)" "a \<notin> set (after c)" for a
      using that rootp_in[of B a] hole_par_in[of c a] by (intro same) auto
    have sameB: "?h' a = ?h a" if "a \<in> set (inorder B)" "rootp B \<noteq> Some a" for a
    proof (rule same)
      show "a \<noteq> x" "a \<noteq> y" using that d by auto
      show "rootp B \<noteq> Some a" by fact
      show "hole_par c \<noteq> Some a" using that d hole_par_in[of c a] by auto
    qed
    have samec: "?h' a = ?h a" if "a \<in> set (before c) \<union> set (after c)" "hole_par c \<noteq> Some a" for a
    proof (rule same)
      show "a \<noteq> x" "a \<noteq> y" using that d by auto
      show "hole_par c \<noteq> Some a" by fact
      show "rootp B \<noteq> Some a" using that d rootp_in[of B a] by auto
    qed
    have A': "repr ?h' (Some x) A"
      by (rule repr_frame[OF xn(5)], rule same1) (use d in auto)
    have C': "repr ?h' (Some y) C"
      by (rule repr_frame[OF yn(5)], rule same1) (use d in auto)
    have B': "repr ?h' (Some x) B"
      using yn(6)
    proof (rule repr_reparent)
      show "distinct (inorder B)" using d by simp
      show "?h' a = ?h a" if "a \<in> set (inorder B)" "rootp B \<noteq> Some a" for a
        using that by (rule sameB)
      show "?h' a = Some (n\<lparr>parent := Some x\<rparr>)" if "rootp B = Some a" "?h a = Some n" for a n
        using that hb' yn(4) by simp
    qed
    have c': "repr_ctx ?h' c (Some y)"
      using rc
    proof (rule repr_ctx_rehole)
      show "distinct (before c @ after c)" using d by auto
      show "x \<notin> set (before c)" using d by auto
      show "?h' a = ?h a" if "a \<in> set (before c) \<union> set (after c)" "hole_par c \<noteq> Some a" for a
        using that by (rule samec)
      show "?h' p = Some (if left pn = Some x then pn\<lparr>left := Some y\<rparr> else pn\<lparr>right := Some y\<rparr>)"
        if "hole_par c = Some p" "?h p = Some pn" for p pn
        using that hp' xn(2) by simp
    qed
    have "repr ?h' None (plug c (Nd (Nd A x B) y C))"
      using A' B' C' c' hx' hy' xn yn by (simp add: repr_plug)
    moreover have "root s' = rootp (plug c (Nd (Nd A x B) y C))"
      using rt' rt xn(2) by (cases c rule: hole_par.cases) (simp_all add: rootp_plug)
    moreover have "distinct (inorder (plug c (Nd (Nd A x B) y C)))"
      using d by (simp add: inorder_plug)
    ultimately have "abs_tree s' (plug c (Nd (Nd A x B) y C))"
      by (simp add: abs_tree_def)
    moreover have "relinked (set (inorder (plug c (Nd A x (Nd B y C))))) s s'"
      unfolding relinked_def
    proof (intro conjI allI impI)
      show "size_tree s' = size_tree s" by fact
      show "next_addr s' = next_addr s" by fact
      show "?h' a = ?h a" if "a \<notin> set (inorder (plug c (Nd A x (Nd B y C))))" for a
        by (rule same1) (use that in \<open>auto simp: inorder_plug\<close>)
      show "map_option payload (?h' a) = map_option payload (?h a)" for a
      proof -
        consider "a = x" | "a = y" | "a \<noteq> x" "a \<noteq> y" "rootp B = Some a"
          | "a \<noteq> x" "a \<noteq> y" "rootp B \<noteq> Some a" "hole_par c = Some a"
          | "a \<noteq> x" "a \<noteq> y" "rootp B \<noteq> Some a" "hole_par c \<noteq> Some a" by blast
        then show ?thesis
        proof cases
          case 1 then show ?thesis using hx' xn(1) by simp
        next
          case 2 then show ?thesis using hy' yn(1) by simp
        next
          case 3
          from repr_root[OF yn(6) 3(3)] obtain n where "?h a = Some n" by auto
          then show ?thesis using hb' 3 yn(4) by simp
        next
          case 4
          from repr_ctx_top[OF rc 4(4)] obtain n where "?h a = Some n" by auto
          then show ?thesis using hp' 4 xn(2) by simp
        next
          case 5 then show ?thesis using same by simp
        qed
      qed
    qed
    ultimately show "abs_tree s' (plug c (Nd (Nd A x B) y C))
           \<and> relinked (set (inorder (plug c (Nd A x (Nd B y C))))) s s'" by simp
  qed
qed

lemma returns_bind:
  "returns m P \<Longrightarrow> (\<And>x. P x \<Longrightarrow> returns (f x) Q) \<Longrightarrow> returns (m \<bind> f) Q"
  by (cases m) auto

lemma relinked_refl [simp]: "relinked X s s"
  by (simp add: relinked_def)

lemma relinked_trans: "relinked X s s1 \<Longrightarrow> relinked X s1 s2 \<Longrightarrow> relinked X s s2"
  by (simp add: relinked_def)

subsection \<open>Splay\<close>

text \<open>
  Each round of the loop shortens the context of \<open>x\<close> by one or two frames and keeps
  the in-order sequence, so the loop ends with \<open>x\<close> at the root.
\<close>

lemma zig_left:
  assumes "abs_tree s (plug [InL p C] (Nd A x B))"
  shows "returns (splay_step x p s)
           (\<lambda>s'. splayed x (inorder (plug [InL p C] (Nd A x B))) s s' [] A (Nd B p C))"
proof -
  from assms have "heap s p \<noteq> None" "\<forall>n. heap s p = Some n \<longrightarrow> parent n = None \<and> left n = Some x"
    by (auto simp: abs_tree_def split: option.splits)
  moreover have "returns (rotate_right p s)
           (\<lambda>s'. splayed x (inorder (plug [InL p C] (Nd A x B))) s s' [] A (Nd B p C))"
    using rotate_right_abs[of s "[]" A x B p C] assms
    by (auto simp: splayed_def elim!: returns_weaken)
  ultimately show ?thesis
    by (auto simp: splay_step_def)
qed

lemma zig_right:
  assumes "abs_tree s (plug [InR C p] (Nd A x B))"
  shows "returns (splay_step x p s)
           (\<lambda>s'. splayed x (inorder (plug [InR C p] (Nd A x B))) s s' [] (Nd C p A) B)"
proof -
  from assms have "heap s p \<noteq> None"
     "\<forall>n. heap s p = Some n \<longrightarrow> parent n = None \<and> left n = rootp C \<and> right n = Some x"
    and "x \<notin> set (inorder C)"
    by (auto simp: abs_tree_def split: option.splits)
  moreover from this have "rootp C \<noteq> Some x" using rootp_in[of C x] by auto
  moreover have "returns (rotate_left p s)
           (\<lambda>s'. splayed x (inorder (plug [InR C p] (Nd A x B))) s s' [] (Nd C p A) B)"
    using rotate_left_abs[of s "[]" C p A x B] assms
    by (auto simp: splayed_def elim!: returns_weaken)
  ultimately show ?thesis
    by (auto simp: splay_step_def)
qed

lemma zig_zig_left:
  assumes a: "abs_tree s (plug (InL p C # InL g D # c) (Nd A x B))"
  shows "returns (splay_step x p s)
           (\<lambda>s'. splayed x (inorder (plug (InL p C # InL g D # c) (Nd A x B))) s s'
                  c A (Nd B p (Nd C g D)))"
proof -
  from a have "heap s p \<noteq> None" "heap s g \<noteq> None"
      "\<forall>n. heap s p = Some n \<longrightarrow> parent n = Some g \<and> left n = Some x"
      "\<forall>n. heap s g = Some n \<longrightarrow> left n = Some p"
    by (auto simp: abs_tree_def repr_plug split: option.splits)
  then have e: "splay_step x p s = rotate_right g s \<bind> rotate_right p"
    by (auto simp: splay_step_def)
  from a have a0: "abs_tree s (plug c (Nd (Nd (Nd A x B) p C) g D))" by simp
  show ?thesis unfolding e
  proof (rule returns_bind[OF rotate_right_abs[OF a0]])
    fix s1 assume 1: "abs_tree s1 (plug c (Nd (Nd A x B) p (Nd C g D))) \<and>
        relinked (set (inorder (plug c (Nd (Nd (Nd A x B) p C) g D)))) s s1"
    then have a1: "abs_tree s1 (plug c (Nd (Nd A x B) p (Nd C g D)))" by simp
    show "returns (rotate_right p s1)
           (\<lambda>s'. splayed x (inorder (plug (InL p C # InL g D # c) (Nd A x B))) s s'
                  c A (Nd B p (Nd C g D)))"
      by (rule returns_weaken[OF rotate_right_abs[OF a1]])
         (use 1 in \<open>auto simp: splayed_def inorder_plug elim: relinked_trans\<close>)
  qed
qed

lemma zig_zig_right:
  assumes a: "abs_tree s (plug (InR C p # InR D g # c) (Nd A x B))"
  shows "returns (splay_step x p s)
           (\<lambda>s'. splayed x (inorder (plug (InR C p # InR D g # c) (Nd A x B))) s s'
                  c (Nd (Nd D g C) p A) B)"
proof -
  from a have "heap s p \<noteq> None" "heap s g \<noteq> None"
      "\<forall>n. heap s p = Some n \<longrightarrow> parent n = Some g \<and> left n = rootp C \<and> right n = Some x"
      "\<forall>n. heap s g = Some n \<longrightarrow> right n = Some p"
      and "x \<notin> set (inorder C)"
    by (auto simp: abs_tree_def repr_plug inorder_plug split: option.splits)
  moreover from this have "rootp C \<noteq> Some x" using rootp_in[of C x] by auto
  ultimately have e: "splay_step x p s = rotate_left g s \<bind> rotate_left p"
    by (auto simp: splay_step_def)
  from a have a0: "abs_tree s (plug c (Nd D g (Nd C p (Nd A x B))))" by simp
  show ?thesis unfolding e
  proof (rule returns_bind[OF rotate_left_abs[OF a0]])
    fix s1 assume 1: "abs_tree s1 (plug c (Nd (Nd D g C) p (Nd A x B))) \<and>
        relinked (set (inorder (plug c (Nd D g (Nd C p (Nd A x B)))))) s s1"
    then have a1: "abs_tree s1 (plug c (Nd (Nd D g C) p (Nd A x B)))" by simp
    show "returns (rotate_left p s1)
           (\<lambda>s'. splayed x (inorder (plug (InR C p # InR D g # c) (Nd A x B))) s s'
                  c (Nd (Nd D g C) p A) B)"
      by (rule returns_weaken[OF rotate_left_abs[OF a1]])
         (use 1 in \<open>auto simp: splayed_def inorder_plug elim: relinked_trans\<close>)
  qed
qed

lemma zig_zag_left_right:
  assumes a: "abs_tree s (plug (InR C p # InL g D # c) (Nd A x B))"
  shows "returns (splay_step x p s)
           (\<lambda>s'. splayed x (inorder (plug (InR C p # InL g D # c) (Nd A x B))) s s'
                  c (Nd C p A) (Nd B g D))"
proof -
  from a have "heap s p \<noteq> None" "heap s g \<noteq> None"
      "\<forall>n. heap s p = Some n \<longrightarrow> parent n = Some g \<and> left n = rootp C \<and> right n = Some x"
      "\<forall>n. heap s g = Some n \<longrightarrow> left n = Some p \<and> right n = rootp D"
      and "x \<notin> set (inorder C)" "p \<notin> set (inorder D)"
    by (auto simp: abs_tree_def repr_plug inorder_plug split: option.splits)
  moreover from this have "rootp C \<noteq> Some x" "rootp D \<noteq> Some p"
    using rootp_in[of C x] rootp_in[of D p] by auto
  ultimately have e: "splay_step x p s = rotate_left p s \<bind> rotate_right g"
    by (auto simp: splay_step_def)
  from a have a0: "abs_tree s (plug (InL g D # c) (Nd C p (Nd A x B)))" by simp
  show ?thesis unfolding e
  proof (rule returns_bind[OF rotate_left_abs[OF a0]])
    fix s1 assume 1: "abs_tree s1 (plug (InL g D # c) (Nd (Nd C p A) x B)) \<and>
        relinked (set (inorder (plug (InL g D # c) (Nd C p (Nd A x B))))) s s1"
    then have a1: "abs_tree s1 (plug c (Nd (Nd (Nd C p A) x B) g D))" by simp
    show "returns (rotate_right g s1)
           (\<lambda>s'. splayed x (inorder (plug (InR C p # InL g D # c) (Nd A x B))) s s'
                  c (Nd C p A) (Nd B g D))"
      by (rule returns_weaken[OF rotate_right_abs[OF a1]])
         (use 1 in \<open>auto simp: splayed_def inorder_plug elim: relinked_trans\<close>)
  qed
qed

lemma zig_zag_right_left:
  assumes a: "abs_tree s (plug (InL p C # InR D g # c) (Nd A x B))"
  shows "returns (splay_step x p s)
           (\<lambda>s'. splayed x (inorder (plug (InL p C # InR D g # c) (Nd A x B))) s s'
                  c (Nd D g A) (Nd B p C))"
proof -
  from a have "heap s p \<noteq> None" "heap s g \<noteq> None"
      "\<forall>n. heap s p = Some n \<longrightarrow> parent n = Some g \<and> left n = Some x \<and> right n = rootp C"
      "\<forall>n. heap s g = Some n \<longrightarrow> left n = rootp D \<and> right n = Some p"
      and "x \<notin> set (inorder C)" "p \<notin> set (inorder D)"
    by (auto simp: abs_tree_def repr_plug inorder_plug split: option.splits)
  moreover from this have "rootp C \<noteq> Some x" "rootp D \<noteq> Some p"
    using rootp_in[of C x] rootp_in[of D p] by auto
  ultimately have e: "splay_step x p s = rotate_right p s \<bind> rotate_left g"
    by (auto simp: splay_step_def)
  from a have a0: "abs_tree s (plug (InR D g # c) (Nd (Nd A x B) p C))" by simp
  show ?thesis unfolding e
  proof (rule returns_bind[OF rotate_right_abs[OF a0]])
    fix s1 assume 1: "abs_tree s1 (plug (InR D g # c) (Nd A x (Nd B p C))) \<and>
        relinked (set (inorder (plug (InR D g # c) (Nd (Nd A x B) p C)))) s s1"
    then have a1: "abs_tree s1 (plug c (Nd D g (Nd A x (Nd B p C))))" by simp
    show "returns (rotate_left g s1)
           (\<lambda>s'. splayed x (inorder (plug (InL p C # InR D g # c) (Nd A x B))) s s'
                  c (Nd D g A) (Nd B p C))"
      by (rule returns_weaken[OF rotate_left_abs[OF a1]])
         (use 1 in \<open>auto simp: splayed_def inorder_plug elim: relinked_trans\<close>)
  qed
qed

lemma splay_step_abs:
  assumes "abs_tree s (plug (f # c) (Nd A x B))"
  shows "returns (splay_step x (frame_addr f) s)
           (\<lambda>s'. \<exists>c' A' B'. length c' < length (f # c)
                    \<and> splayed x (inorder (plug (f # c) (Nd A x B))) s s' c' A' B')"
proof (cases f)
  case f: (InL p C)
  show ?thesis
  proof (cases c)
    case Nil
    show ?thesis using assms unfolding f Nil frame_addr.simps
      by (rule returns_weaken[OF zig_left]) (intro exI[of _ "[]"] exI conjI, simp_all)
  next
    case (Cons f' c')
    show ?thesis
    proof (cases f')
      case (InL g D)
      show ?thesis using assms unfolding f Cons InL frame_addr.simps
        by (rule returns_weaken[OF zig_zig_left]) (intro exI[of _ c'] exI conjI, simp_all)
    next
      case (InR D g)
      show ?thesis using assms unfolding f Cons InR frame_addr.simps
        by (rule returns_weaken[OF zig_zag_right_left]) (intro exI[of _ c'] exI conjI, simp_all)
    qed
  qed
next
  case f: (InR C p)
  show ?thesis
  proof (cases c)
    case Nil
    show ?thesis using assms unfolding f Nil frame_addr.simps
      by (rule returns_weaken[OF zig_right]) (intro exI[of _ "[]"] exI conjI, simp_all)
  next
    case (Cons f' c')
    show ?thesis
    proof (cases f')
      case (InL g D)
      show ?thesis using assms unfolding f Cons InL frame_addr.simps
        by (rule returns_weaken[OF zig_zag_left_right]) (intro exI[of _ c'] exI conjI, simp_all)
    next
      case (InR D g)
      show ?thesis using assms unfolding f Cons InR frame_addr.simps
        by (rule returns_weaken[OF zig_zig_right]) (intro exI[of _ c'] exI conjI, simp_all)
    qed
  qed
qed

lemma splay_loop_abs:
  "abs_tree s (plug c (Nd A x B)) \<Longrightarrow>
   returns (splay_loop x s)
     (\<lambda>s'. \<exists>A' B'. splayed x (inorder (plug c (Nd A x B))) s s' [] A' B')"
proof (induction c arbitrary: s A B rule: length_induct)
  case (1 c)
  note a = "1.prems"
  from a have "heap s x \<noteq> None" and px: "\<forall>n. heap s x = Some n \<longrightarrow> parent n = hole_par c"
    by (auto simp: abs_tree_def repr_plug split: option.splits)
  then obtain xn where xn: "heap s x = Some xn" "parent xn = hole_par c" by auto
  show ?case
  proof (cases c)
    case Nil
    have "splayed x (inorder (plug c (Nd A x B))) s s [] A B"
      using a Nil by (simp add: splayed_def)
    then show ?thesis using xn Nil
      by (subst splay_loop.simps) auto
  next
    case (Cons f c0)
    have p: "hole_par c = Some (frame_addr f)" using Cons by (cases f) auto
    have e: "splay_loop x s = splay_step x (frame_addr f) s \<bind> splay_loop x"
      by (subst splay_loop.simps) (simp add: xn p)
    show ?thesis unfolding e
    proof (rule returns_bind[OF splay_step_abs[OF a[unfolded Cons]]], elim exE conjE)
      fix s1 c' A' B'
      assume len: "length c' < length (f # c0)"
        and sp: "splayed x (inorder (plug (f # c0) (Nd A x B))) s s1 c' A' B'"
      from sp have a1: "abs_tree s1 (plug c' (Nd A' x B'))"
        and io: "inorder (plug c' (Nd A' x B')) = inorder (plug (f # c0) (Nd A x B))"
        and rl: "relinked (set (inorder (plug (f # c0) (Nd A x B)))) s s1"
        by (simp_all add: splayed_def)
      from "1.IH" len Cons a1
      have "returns (splay_loop x s1)
              (\<lambda>s'. \<exists>A'' B''. splayed x (inorder (plug c' (Nd A' x B'))) s1 s' [] A'' B'')"
        by blast
      then show "returns (splay_loop x s1)
              (\<lambda>s'. \<exists>A' B'. splayed x (inorder (plug c (Nd A x B))) s s' [] A' B')"
      proof (rule returns_weaken, elim exE)
        fix s' A'' B''
        assume "splayed x (inorder (plug c' (Nd A' x B'))) s1 s' [] A'' B''"
        with io rl Cons have "splayed x (inorder (plug c (Nd A x B))) s s' [] A'' B''"
          using relinked_trans[of "set (inorder (plug c (Nd A x B)))" s s1 s']
          by (simp add: splayed_def)
        then show "\<exists>A' B'. splayed x (inorder (plug c (Nd A x B))) s s' [] A' B'" by blast
      qed
    qed
  qed
qed

lemma plug_append: "plug (c @ c') t = plug c' (plug c t)"
  by (induction c t rule: plug.induct) auto

lemma shape_focus: "a \<in> set (inorder t) \<Longrightarrow> \<exists>c A B. t = plug c (Nd A a B)"
proof (induction t)
  case Lf
  then show ?case by simp
next
  case (Nd l b r)
  consider "a = b" | "a \<in> set (inorder l)" | "a \<in> set (inorder r)"
    using Nd.prems by auto
  then show ?case
  proof cases
    case 1
    then have "Nd l b r = plug [] (Nd l a r)" by simp
    then show ?thesis by blast
  next
    case 2
    with Nd.IH obtain c A B where "l = plug c (Nd A a B)" by blast
    then have "Nd l b r = plug (c @ [InL b r]) (Nd A a B)" by (simp add: plug_append)
    then show ?thesis by blast
  next
    case 3
    with Nd.IH obtain c A B where "r = plug c (Nd A a B)" by blast
    then have "Nd l b r = plug (c @ [InR l b]) (Nd A a B)" by (simp add: plug_append)
    then show ?thesis by blast
  qed
qed

lemma splay_abs:
  assumes "abs_tree s t" and "a \<in> set (inorder t)"
  shows "returns (splay (Some a) s)
           (\<lambda>s'. \<exists>A B. abs_tree s' (Nd A a B) \<and> inorder (Nd A a B) = inorder t
                    \<and> relinked (set (inorder t)) s s')"
proof -
  from shape_focus[OF assms(2)] obtain c A B where t: "t = plug c (Nd A a B)" by blast
  show ?thesis
    using splay_loop_abs[of s c A a B] assms(1)
    unfolding t splay_def by (auto simp: splayed_def elim!: returns_weaken)
qed

subsection \<open>Keys and find\<close>

lemma strcmp_eq: "strcmp a b = 0 \<longleftrightarrow> a = b"
  by (induction a b rule: strcmp.induct) auto

lemma strcmp_less: "strcmp a b < 0 \<longleftrightarrow> a < b"
  by (induction a b rule: strcmp.induct) (auto simp: less_char_def)

lemma key_at_relinked: "relinked X s s' \<Longrightarrow> key_at s' a = key_at s a"
proof -
  assume "relinked X s s'"
  then have "map_option payload (heap s' a) = map_option payload (heap s a)"
    by (simp add: relinked_def)
  then show ?thesis
    by (cases "heap s a"; cases "heap s' a") (auto simp: key_at_def payload_def)
qed

lemma title_at_relinked: "relinked X s s' \<Longrightarrow> title_at s' a = title_at s a"
proof -
  assume "relinked X s s'"
  then have "map_option payload (heap s' a) = map_option payload (heap s a)"
    by (simp add: relinked_def)
  then show ?thesis
    by (cases "heap s a"; cases "heap s' a") (auto simp: title_at_def payload_def)
qed

lemma timestamp_at_relinked: "relinked X s s' \<Longrightarrow> timestamp_at s' a = timestamp_at s a"
proof -
  assume "relinked X s s'"
  then have "map_option payload (heap s' a) = map_option payload (heap s a)"
    by (simp add: relinked_def)
  then show ?thesis
    by (cases "heap s a"; cases "heap s' a") (auto simp: timestamp_at_def payload_def)
qed

lemma find_node_loop_absent:
  assumes "repr (heap s) par t" and "k \<notin> key_at s ` set (inorder t)"
  shows "find_node_loop (heap s) k (rootp t) = Some None"
  using assms
proof (induction t arbitrary: par)
  case Lf
  then show ?case by (subst find_node_loop.simps) simp
next
  case (Nd l a r)
  from Nd.prems(1) obtain n where n: "heap s a = Some n" "left n = rootp l" "right n = rootp r"
     "repr (heap s) (Some a) l" "repr (heap s) (Some a) r"
    by (auto split: option.splits)
  from Nd.prems(2) n(1) have ne: "k \<noteq> chat_id n" by (auto simp: key_at_def)
  from Nd.prems(2) have "k \<notin> key_at s ` set (inorder l)" "k \<notin> key_at s ` set (inorder r)"
    by auto
  with Nd.IH n have "find_node_loop (heap s) k (rootp l) = Some None"
      "find_node_loop (heap s) k (rootp r) = Some None" by blast+
  with n ne show ?case
    by (subst find_node_loop.simps) (simp add: strcmp_eq)
qed

lemma find_node_loop_present:
  assumes "repr (heap s) par t" and "sorted (map (key_at s) (inorder t))"
    and "k \<in> key_at s ` set (inorder t)"
  shows "\<exists>a. find_node_loop (heap s) k (rootp t) = Some (Some a)
              \<and> a \<in> set (inorder t) \<and> key_at s a = k"
  using assms
proof (induction t arbitrary: par)
  case Lf
  then show ?case by simp
next
  case (Nd l a r)
  from Nd.prems(1) obtain n where n: "heap s a = Some n" "left n = rootp l" "right n = rootp r"
     "repr (heap s) (Some a) l" "repr (heap s) (Some a) r"
    by (auto split: option.splits)
  have ka: "key_at s a = chat_id n" using n(1) by (simp add: key_at_def)
  from Nd.prems(2) have sl: "sorted (map (key_at s) (inorder l))"
    and sr: "sorted (map (key_at s) (inorder r))"
    and ll: "\<forall>b\<in>set (inorder l). key_at s b \<le> key_at s a"
    and rr: "\<forall>b\<in>set (inorder r). key_at s a \<le> key_at s b"
    by (auto simp: sorted_append)
  consider "k = chat_id n" | "k < chat_id n" | "chat_id n < k" by fastforce
  then show ?case
  proof cases
    case 1
    then show ?thesis using n ka
      by (subst find_node_loop.simps) (simp add: strcmp_eq)
  next
    case 2
    with rr ka Nd.prems(3) have "k \<in> key_at s ` set (inorder l)" by fastforce
    from Nd.IH(1)[OF n(4) sl this] 2 n show ?thesis
      by (subst find_node_loop.simps) (auto simp: strcmp_eq strcmp_less)
  next
    case 3
    with ll ka Nd.prems(3) have "k \<in> key_at s ` set (inorder r)" by fastforce
    from Nd.IH(2)[OF n(5) sr this] 3 n show ?thesis
      by (subst find_node_loop.simps) (auto simp: strcmp_eq strcmp_less)
  qed
qed

lemma wf_tree_relinked:
  assumes "wf_tree s t" and "abs_tree s' t'" and "inorder t' = inorder t" and "relinked X s s'"
  shows "wf_tree s' t'"
proof -
  have "key_at s' = key_at s" "title_at s' = title_at s"
    using assms(4) by (auto simp: key_at_relinked title_at_relinked)
  moreover have "size_tree s' = size_tree s" "next_addr s' = next_addr s"
    using assms(4) by (simp_all add: relinked_def)
  ultimately show ?thesis using assms(1-3) by (simp add: wf_tree_def keys_def)
qed

lemma find_node_present:
  assumes "wf_tree s t" and "k \<in> set (keys s t)"
  shows "\<exists>a. find_node k s = Some (Some a) \<and> a \<in> set (inorder t) \<and> key_at s a = k"
proof -
  from assms(1) have "repr (heap s) None t" "root s = rootp t" "sorted (map (key_at s) (inorder t))"
    by (simp_all add: wf_tree_def abs_tree_def keys_def)
  with find_node_loop_present[of s None t k] assms(2) show ?thesis
    by (simp add: find_node_def keys_def)
qed

lemma find_node_absent:
  assumes "wf_tree s t" and "k \<notin> set (keys s t)"
  shows "find_node k s = Some None"
proof -
  from assms(1) have "repr (heap s) None t" "root s = rootp t"
    by (simp_all add: wf_tree_def abs_tree_def)
  with find_node_loop_absent[of s None t k] assms(2) show ?thesis
    by (simp add: find_node_def keys_def)
qed

lemma access_chat_present:
  assumes "wf_tree s t" and "k \<in> set (keys s t)"
  shows "\<exists>s' r t'. access_chat k s = Some (s', Some r) \<and> root s' = Some r \<and> key_at s' r = k
           \<and> wf_tree s' t' \<and> inorder t' = inorder t \<and> relinked (set (inorder t)) s s'"
proof -
  from find_node_present[OF assms] obtain a where
    a: "find_node k s = Some (Some a)" "a \<in> set (inorder t)" "key_at s a = k" by blast
  from assms(1) have "abs_tree s t" by (simp add: wf_tree_def)
  from splay_abs[OF this a(2)] obtain s' A B where
    s': "splay (Some a) s = Some s'" "abs_tree s' (Nd A a B)" "inorder (Nd A a B) = inorder t"
        "relinked (set (inorder t)) s s'"
    by (auto elim!: returnsE)
  have "wf_tree s' (Nd A a B)" using assms(1) s'(2,3,4) by (rule wf_tree_relinked)
  moreover have "root s' = Some a" using s'(2) by (simp add: abs_tree_def)
  moreover have "key_at s' a = k" using a(3) key_at_relinked[OF s'(4)] by simp
  moreover have "access_chat k s = Some (s', Some a)" using a(1) s'(1) by (simp add: access_chat_def)
  ultimately show ?thesis using s'(3,4) by blast
qed

subsection \<open>Insert\<close>

lemma repr_links_cong:
  "repr h par t \<Longrightarrow>
   (\<And>a n. a \<in> set (inorder t) \<Longrightarrow> h a = Some n \<Longrightarrow>
       \<exists>n'. h' a = Some n' \<and> left n' = left n \<and> right n' = right n \<and> parent n' = parent n)
   \<Longrightarrow> repr h' par t"
proof (induction t arbitrary: par)
  case Lf
  then show ?case by simp
next
  case (Nd l a r)
  from Nd.prems(1) obtain n where n: "h a = Some n" "parent n = par" "left n = rootp l"
      "right n = rootp r" "repr h (Some a) l" "repr h (Some a) r"
    by (auto split: option.splits)
  from Nd.prems(2)[of a n] n(1) obtain n' where n': "h' a = Some n'" "left n' = left n"
      "right n' = right n" "parent n' = parent n" by auto
  have "repr h' (Some a) l" using n(5) Nd.prems(2) by (intro Nd.IH(1)) auto
  moreover have "repr h' (Some a) r" using n(6) Nd.prems(2) by (intro Nd.IH(2)) auto
  ultimately show ?case using n n' by simp
qed

lemma repr_ctx_hole:
  assumes "repr_ctx h c hp" and "distinct (before c @ after c)"
    and "\<And>a. a \<in> set (before c) \<union> set (after c) \<Longrightarrow> hole_par c \<noteq> Some a \<Longrightarrow> h' a = h a"
    and "\<And>p r c' pn. c = InL p r # c' \<Longrightarrow> h p = Some pn \<Longrightarrow> h' p = Some (pn\<lparr>left := hp'\<rparr>)"
    and "\<And>p l c' pn. c = InR l p # c' \<Longrightarrow> h p = Some pn \<Longrightarrow> h' p = Some (pn\<lparr>right := hp'\<rparr>)"
  shows "repr_ctx h' c hp'"
proof (cases c rule: hole_par.cases)
  case 1
  then show ?thesis by simp
next
  case (2 p r c')
  with assms(1) obtain pn where pn: "h p = Some pn" "parent pn = hole_par c'" "left pn = hp"
      "right pn = rootp r" "repr h (Some p) r" "repr_ctx h c' (Some p)"
    by (auto split: option.splits)
  from 2 assms(2) have d: "p \<notin> set (inorder r)" "p \<notin> set (before c')" "p \<notin> set (after c')"
    by auto
  have "repr h' (Some p) r"
    using pn(5) by (rule repr_frame) (use 2 d assms(3) in auto)
  moreover have "repr_ctx h' c' (Some p)"
    using pn(6) by (rule repr_ctx_frame) (use 2 d assms(3) in auto)
  moreover have "h' p = Some (pn\<lparr>left := hp'\<rparr>)"
    using assms(4)[OF 2 pn(1)] .
  ultimately show ?thesis using 2 pn by simp
next
  case (3 l p c')
  with assms(1) obtain pn where pn: "h p = Some pn" "parent pn = hole_par c'" "left pn = rootp l"
      "right pn = hp" "repr h (Some p) l" "repr_ctx h c' (Some p)"
    by (auto split: option.splits)
  from 3 assms(2) have d: "p \<notin> set (inorder l)" "p \<notin> set (before c')" "p \<notin> set (after c')"
    by auto
  have "repr h' (Some p) l"
    using pn(5) by (rule repr_frame) (use 3 d assms(3) in auto)
  moreover have "repr_ctx h' c' (Some p)"
    using pn(6) by (rule repr_ctx_frame) (use 3 d assms(3) in auto)
  moreover have "h' p = Some (pn\<lparr>right := hp'\<rparr>)"
    using assms(5)[OF 3 pn(1)] .
  ultimately show ?thesis using 3 pn by simp
qed

lemma insert_walk_abs:
  assumes "repr (heap s) (hole_par c) t" and "sorted (map (key_at s) (inorder t))"
    and "\<forall>b\<in>set (before c). key_at s b < k" and "\<forall>a\<in>set (after c). k < key_at s a"
  shows "(\<exists>a. insert_walk (heap s) k (rootp t) (hole_par c) = Some (Inl a)
              \<and> a \<in> set (inorder t) \<and> key_at s a = k)
       \<or> (k \<notin> key_at s ` set (inorder t)
          \<and> (\<exists>c'. insert_walk (heap s) k (rootp t) (hole_par c) = Some (Inr (hole_par c'))
                \<and> plug c' Lf = plug c t \<and> length c \<le> length c'
                \<and> (t \<noteq> Lf \<longrightarrow> length c < length c')
                \<and> (\<forall>b\<in>set (before c'). key_at s b < k)
                \<and> (\<forall>a\<in>set (after c'). k < key_at s a)))"
  using assms
proof (induction t arbitrary: c)
  case Lf
  have "insert_walk (heap s) k None (hole_par c) = Some (Inr (hole_par c))"
    by (subst insert_walk.simps) simp
  with Lf show ?case by auto
next
  case (Nd l a r)
  from Nd.prems(1) obtain n where n: "heap s a = Some n" "left n = rootp l" "right n = rootp r"
     "repr (heap s) (Some a) l" "repr (heap s) (Some a) r"
    by (auto split: option.splits)
  have ka: "key_at s a = chat_id n" using n(1) by (simp add: key_at_def)
  from Nd.prems(2) have sl: "sorted (map (key_at s) (inorder l))"
    and sr: "sorted (map (key_at s) (inorder r))"
    and ll: "\<forall>b\<in>set (inorder l). key_at s b \<le> key_at s a"
    and rr: "\<forall>b\<in>set (inorder r). key_at s a \<le> key_at s b"
    by (auto simp: sorted_append)
  consider "k = chat_id n" | "k < chat_id n" | "chat_id n < k" by fastforce
  then show ?case
  proof cases
    case 1
    then have "insert_walk (heap s) k (Some a) (hole_par c) = Some (Inl a)"
      using n by (subst insert_walk.simps) (simp add: strcmp_eq)
    then show ?thesis using 1 ka by simp
  next
    case 2
    have e: "insert_walk (heap s) k (Some a) (hole_par c)
             = insert_walk (heap s) k (rootp l) (hole_par (InL a r # c))"
      using n 2 by (subst insert_walk.simps) (auto simp: strcmp_eq strcmp_less)
    have nr: "k \<notin> key_at s ` set (inorder r)" "k \<noteq> key_at s a" using rr 2 ka by fastforce+
    have "(\<exists>a'. insert_walk (heap s) k (rootp l) (hole_par (InL a r # c)) = Some (Inl a')
              \<and> a' \<in> set (inorder l) \<and> key_at s a' = k)
       \<or> (k \<notin> key_at s ` set (inorder l)
          \<and> (\<exists>c'. insert_walk (heap s) k (rootp l) (hole_par (InL a r # c)) = Some (Inr (hole_par c'))
                \<and> plug c' Lf = plug (InL a r # c) l \<and> length (InL a r # c) \<le> length c'
                \<and> (l \<noteq> Lf \<longrightarrow> length (InL a r # c) < length c')
                \<and> (\<forall>b\<in>set (before c'). key_at s b < k)
                \<and> (\<forall>a\<in>set (after c'). k < key_at s a)))"
    proof (rule Nd.IH(1))
      show "repr (heap s) (hole_par (InL a r # c)) l" using n by simp
      show "sorted (map (key_at s) (inorder l))" by fact
      show "\<forall>b\<in>set (before (InL a r # c)). key_at s b < k" using Nd.prems(3) by simp
      show "\<forall>b\<in>set (after (InL a r # c)). k < key_at s b"
        using Nd.prems(4) rr 2 ka by fastforce
    qed
    then show ?thesis
    proof (elim disjE exE conjE)
      fix a' assume "insert_walk (heap s) k (rootp l) (hole_par (InL a r # c)) = Some (Inl a')"
        "a' \<in> set (inorder l)" "key_at s a' = k"
      then show ?thesis using e by auto
    next
      fix c' assume "k \<notin> key_at s ` set (inorder l)"
        "insert_walk (heap s) k (rootp l) (hole_par (InL a r # c)) = Some (Inr (hole_par c'))"
        "plug c' Lf = plug (InL a r # c) l" "length (InL a r # c) \<le> length c'"
        "\<forall>b\<in>set (before c'). key_at s b < k" "\<forall>a\<in>set (after c'). k < key_at s a"
      then have "k \<notin> key_at s ` set (inorder (Nd l a r))
          \<and> insert_walk (heap s) k (rootp (Nd l a r)) (hole_par c) = Some (Inr (hole_par c'))
                \<and> plug c' Lf = plug c (Nd l a r) \<and> length c \<le> length c'
                \<and> (Nd l a r \<noteq> Lf \<longrightarrow> length c < length c')
                \<and> (\<forall>b\<in>set (before c'). key_at s b < k)
                \<and> (\<forall>a\<in>set (after c'). k < key_at s a)"
        using e nr by auto
      then show ?thesis by blast
    qed
  next
    case 3
    have e: "insert_walk (heap s) k (Some a) (hole_par c)
             = insert_walk (heap s) k (rootp r) (hole_par (InR l a # c))"
      using n 3 by (subst insert_walk.simps) (auto simp: strcmp_eq strcmp_less)
    have nr: "k \<notin> key_at s ` set (inorder l)" "k \<noteq> key_at s a" using ll 3 ka by fastforce+
    have "(\<exists>a'. insert_walk (heap s) k (rootp r) (hole_par (InR l a # c)) = Some (Inl a')
              \<and> a' \<in> set (inorder r) \<and> key_at s a' = k)
       \<or> (k \<notin> key_at s ` set (inorder r)
          \<and> (\<exists>c'. insert_walk (heap s) k (rootp r) (hole_par (InR l a # c)) = Some (Inr (hole_par c'))
                \<and> plug c' Lf = plug (InR l a # c) r \<and> length (InR l a # c) \<le> length c'
                \<and> (r \<noteq> Lf \<longrightarrow> length (InR l a # c) < length c')
                \<and> (\<forall>b\<in>set (before c'). key_at s b < k)
                \<and> (\<forall>a\<in>set (after c'). k < key_at s a)))"
    proof (rule Nd.IH(2))
      show "repr (heap s) (hole_par (InR l a # c)) r" using n by simp
      show "sorted (map (key_at s) (inorder r))" by fact
      show "\<forall>b\<in>set (after (InR l a # c)). k < key_at s b" using Nd.prems(4) by simp
      show "\<forall>b\<in>set (before (InR l a # c)). key_at s b < k"
        using Nd.prems(3) ll 3 ka by fastforce
    qed
    then show ?thesis
    proof (elim disjE exE conjE)
      fix a' assume "insert_walk (heap s) k (rootp r) (hole_par (InR l a # c)) = Some (Inl a')"
        "a' \<in> set (inorder r)" "key_at s a' = k"
      then show ?thesis using e by auto
    next
      fix c' assume "k \<notin> key_at s ` set (inorder r)"
        "insert_walk (heap s) k (rootp r) (hole_par (InR l a # c)) = Some (Inr (hole_par c'))"
        "plug c' Lf = plug (InR l a # c) r" "length (InR l a # c) \<le> length c'"
        "\<forall>b\<in>set (before c'). key_at s b < k" "\<forall>a\<in>set (after c'). k < key_at s a"
      then have "k \<notin> key_at s ` set (inorder (Nd l a r))
          \<and> insert_walk (heap s) k (rootp (Nd l a r)) (hole_par c) = Some (Inr (hole_par c'))
                \<and> plug c' Lf = plug c (Nd l a r) \<and> length c \<le> length c'
                \<and> (Nd l a r \<noteq> Lf \<longrightarrow> length c < length c')
                \<and> (\<forall>b\<in>set (before c'). key_at s b < k)
                \<and> (\<forall>a\<in>set (after c'). k < key_at s a)"
        using e nr by auto
      then show ?thesis by blast
    qed
  qed
qed

lemma take_le: "take n (k :: string) \<le> k"
proof (induction k arbitrary: n)
  case Nil
  then show ?case by simp
next
  case (Cons x xs)
  then show ?case by (cases n) auto
qed

lemma less_take_le: "(b :: string) < k \<Longrightarrow> length b \<le> n \<Longrightarrow> b \<le> take n k"
proof (induction b arbitrary: k n)
  case Nil
  then show ?case by simp
next
  case (Cons x xs)
  then obtain y ys m where "k = y # ys" "n = Suc m"
    by (cases k; cases n) auto
  with Cons show ?case by auto
qed

lemma create_node_eq:
  "create_node k ttl ts s =
     (s\<lparr>heap := (heap s)(next_addr s := Some (fresh_node k ttl ts)), next_addr := Suc (next_addr s)\<rparr>,
      next_addr s)"
  by (simp add: create_node_def fresh_node_def strncpy_def MAX_ID_LEN_def MAX_TITLE_LEN_def Let_def)

lemma wf_tree_fresh: "wf_tree s t \<Longrightarrow> next_addr s \<notin> set (inorder t)"
  by (auto simp: wf_tree_def)

lemma wf_treeI:
  assumes "abs_tree s t" and "size_tree s = int (length (inorder t))"
    and "\<And>a. a \<in> set (inorder t) \<Longrightarrow> a < next_addr s"
    and "\<And>a. a \<in> set (inorder t) \<Longrightarrow> length (key_at s a) \<le> 63"
    and "\<And>a. a \<in> set (inorder t) \<Longrightarrow> length (title_at s a) \<le> 255"
    and "sorted (keys s t)"
  shows "wf_tree s t"
proof -
  have "length (key_at s a) < 64" "length (title_at s a) < 256" if "a \<in> set (inorder t)" for a
    using assms(4,5)[OF that] by simp_all
  then show ?thesis
    using assms(1,2,3,6) by (simp add: wf_tree_def MAX_ID_LEN_def MAX_TITLE_LEN_def)
qed

lemma wf_treeD:
  assumes "wf_tree s t"
  shows "abs_tree s t" and "size_tree s = int (length (inorder t))"
    and "\<And>a. a \<in> set (inorder t) \<Longrightarrow> a < next_addr s"
    and "\<And>a. a \<in> set (inorder t) \<Longrightarrow> length (key_at s a) \<le> 63"
    and "\<And>a. a \<in> set (inorder t) \<Longrightarrow> length (title_at s a) \<le> 255"
    and "sorted (keys s t)"
  using assms by (fastforce simp: wf_tree_def MAX_ID_LEN_def MAX_TITLE_LEN_def)+

lemma wf_tree_create_node:
  assumes "wf_tree s t"
  shows "wf_tree (fst (create_node k ttl ts s)) t"
proof -
  let ?s = "fst (create_node k ttl ts s)"
  note w = wf_treeD[OF assms]
  have nt: "next_addr s \<notin> set (inorder t)" using assms by (rule wf_tree_fresh)
  have h: "heap ?s a = heap s a" if "a \<in> set (inorder t)" for a
    using that nt by (auto simp: create_node_eq)
  then have k: "key_at ?s a = key_at s a" "title_at ?s a = title_at s a" if "a \<in> set (inorder t)" for a
    using that by (simp_all add: key_at_def title_at_def)
  have e: "root ?s = root s" "size_tree ?s = size_tree s" "next_addr ?s = Suc (next_addr s)"
    by (simp_all add: create_node_eq)
  have "repr (heap ?s) None t"
    by (rule repr_frame[of "heap s"]) (use w(1) h in \<open>auto simp: abs_tree_def\<close>)
  then have "abs_tree ?s t" using w(1) e by (simp add: abs_tree_def)
  moreover have "keys ?s t = keys s t"
    unfolding keys_def by (rule map_cong) (use k in auto)
  ultimately show ?thesis
    using w e k by (intro wf_treeI) (auto simp: less_Suc_eq)
qed

lemma insert_chat_empty:
  assumes "wf_tree s Lf"
  shows "returns (insert_chat k ttl ts s) (\<lambda>(s', a). a = next_addr s \<and> wf_tree s' (Nd Lf a Lf)
           \<and> key_at s' a = take 63 k \<and> title_at s' a = take 255 ttl \<and> timestamp_at s' a = ts
           \<and> size_tree s' = size_tree s + 1)"
  using assms
  by (simp add: insert_chat_def create_node_eq wf_tree_def abs_tree_def keys_def key_at_def title_at_def
      timestamp_at_def fresh_node_def MAX_ID_LEN_def MAX_TITLE_LEN_def min_def)

lemma keys_relinked: "relinked X s s' \<Longrightarrow> keys s' t = keys s t"
  unfolding keys_def by (rule map_cong) (simp_all add: key_at_relinked)

lemma repr_allocated: "repr h par t \<Longrightarrow> a \<in> set (inorder t) \<Longrightarrow> \<exists>n. h a = Some n"
  by (induction t arbitrary: par) (auto split: option.splits)

lemma keys_nonempty: "k \<in> set (keys s t) \<Longrightarrow> \<exists>r. rootp t = Some r"
  by (cases t) (auto simp: keys_def)

lemma insert_chat_existing:
  assumes "wf_tree s t" and "k \<in> set (keys s t)"
  shows "returns (insert_chat k ttl ts s) (\<lambda>(s', a). \<exists>t'. wf_tree s' t' \<and> root s' = Some a
           \<and> a \<in> set (inorder t) \<and> inorder t' = inorder t \<and> keys s' t' = keys s t
           \<and> key_at s' a = k \<and> length k \<le> 63
           \<and> title_at s' a = take 255 ttl \<and> timestamp_at s' a = ts
           \<and> size_tree s' = size_tree s \<and> next_addr s' = Suc (next_addr s))"
proof -
  define sc where "sc = fst (create_node k ttl ts s)"
  define new where "new = next_addr s"
  have cn: "create_node k ttl ts s = (sc, new)" by (simp add: sc_def new_def create_node_eq)
  have wsc: "wf_tree sc t" unfolding sc_def using assms(1) by (rule wf_tree_create_node)
  note w = wf_treeD[OF wsc]
  have nt: "new \<notin> set (inorder t)" unfolding new_def using assms(1) by (rule wf_tree_fresh)
  have sce: "size_tree sc = size_tree s" "next_addr sc = Suc new"
    by (simp_all add: sc_def new_def create_node_eq)
  have ke: "keys sc t = keys s t"
    unfolding keys_def
    by (rule map_cong) (use nt in \<open>auto simp: sc_def new_def create_node_eq key_at_def\<close>)
  from w(1) have r: "repr (heap sc) None t" "root sc = rootp t" "distinct (inorder t)"
    by (simp_all add: abs_tree_def)
  from keys_nonempty[OF assms(2)] r obtain rt where rt: "root sc = Some rt" "rootp t = Some rt"
    by auto
  have "k \<in> key_at sc ` set (inorder t)" using assms(2) ke by (simp add: keys_def)
  with insert_walk_abs[of sc "[]" t k] r w(6) obtain a where
    a: "insert_walk (heap sc) k (rootp t) None = Some (Inl a)" "a \<in> set (inorder t)" "key_at sc a = k"
    by (auto simp: keys_def)
  from repr_allocated[OF r(1) a(2)] obtain n where n: "heap sc a = Some n" by blast
  define s2 where "s2 = free_node new
      (sc\<lparr>heap := (heap sc)(a := Some (n\<lparr>title := take 255 ttl, timestamp := ts\<rparr>))\<rparr>)"
  have ins: "insert_chat k ttl ts s = splay (Some a) s2 \<bind> (\<lambda>s3. Some (s3, a))"
    using cn rt a(1) n
    by (simp add: insert_chat_def upd_node_def s2_def strncpy_def MAX_TITLE_LEN_def)
  have an: "a \<noteq> new" using a(2) nt by auto
  have h2a: "heap s2 a = Some (n\<lparr>title := take 255 ttl, timestamp := ts\<rparr>)"
    using an by (simp add: s2_def free_node_def)
  have h2: "heap s2 b = heap sc b" if "b \<noteq> a" "b \<in> set (inorder t)" for b
    using that nt by (auto simp: s2_def free_node_def)
  have s2e: "root s2 = root sc" "size_tree s2 = size_tree sc" "next_addr s2 = next_addr sc"
    by (simp_all add: s2_def free_node_def)
  have k2: "key_at s2 b = key_at sc b" if "b \<in> set (inorder t)" for b
    using that n h2a h2[of b] by (cases "b = a") (auto simp: key_at_def)
  have t2: "title_at s2 b = (if b = a then take 255 ttl else title_at sc b)"
    if "b \<in> set (inorder t)" for b
    using that n h2a h2[of b] by (cases "b = a") (auto simp: title_at_def)
  have "repr (heap s2) None t"
    using r(1)
  proof (rule repr_links_cong)
    fix b m assume b: "b \<in> set (inorder t)" "heap sc b = Some m"
    show "\<exists>n'. heap s2 b = Some n' \<and> left n' = left m \<and> right n' = right m \<and> parent n' = parent m"
      using b n h2a h2[of b] by (cases "b = a") auto
  qed
  then have abs2: "abs_tree s2 t" using r s2e by (simp add: abs_tree_def)
  have ke2: "keys s2 t = keys sc t"
    unfolding keys_def by (rule map_cong) (use k2 in auto)
  have w2: "wf_tree s2 t"
  proof (rule wf_treeI)
    show "abs_tree s2 t" by fact
    show "size_tree s2 = int (length (inorder t))" using w(2) s2e by simp
    show "b < next_addr s2" if "b \<in> set (inorder t)" for b using w(3)[OF that] s2e by simp
    show "length (key_at s2 b) \<le> 63" if "b \<in> set (inorder t)" for b
      using w(4)[OF that] k2[OF that] by simp
    show "length (title_at s2 b) \<le> 255" if "b \<in> set (inorder t)" for b
      using w(5)[OF that] t2[OF that] by simp
    show "sorted (keys s2 t)" using w(6) ke2 by simp
  qed
  have lk: "length k \<le> 63" using w(4)[OF a(2)] a(3) by simp
  show ?thesis unfolding ins
  proof (rule returns_bind[OF splay_abs[OF abs2 a(2)]], elim exE conjE)
    fix s3 A B
    assume 3: "abs_tree s3 (Nd A a B)" "inorder (Nd A a B) = inorder t"
      "relinked (set (inorder t)) s2 s3"
    have w3: "wf_tree s3 (Nd A a B)" using w2 3 by (rule wf_tree_relinked)
    have "keys s3 (Nd A a B) = keys s2 (Nd A a B)" by (rule keys_relinked[OF 3(3)])
    also have "\<dots> = keys s2 t" unfolding keys_def 3(2) ..
    finally have "keys s3 (Nd A a B) = keys s2 t" .
    moreover have "inorder (Nd A a B) = inorder t" by fact
    moreover have "root s3 = Some a" using 3(1) by (simp add: abs_tree_def)
    moreover have "key_at s3 a = k" using key_at_relinked[OF 3(3)] k2[OF a(2)] a(3) by simp
    moreover have "title_at s3 a = take 255 ttl"
      using title_at_relinked[OF 3(3)] t2[OF a(2)] by simp
    moreover have "timestamp_at s3 a = ts"
      using timestamp_at_relinked[OF 3(3)] h2a by (simp add: timestamp_at_def)
    moreover have "size_tree s3 = size_tree s" "next_addr s3 = Suc (next_addr s)"
      using 3(3) s2e sce by (simp_all add: relinked_def new_def)
    ultimately show "returns (Some (s3, a)) (\<lambda>(s', a). \<exists>t'. wf_tree s' t' \<and> root s' = Some a
           \<and> a \<in> set (inorder t) \<and> inorder t' = inorder t \<and> keys s' t' = keys s t
           \<and> key_at s' a = k \<and> length k \<le> 63
           \<and> title_at s' a = take 255 ttl \<and> timestamp_at s' a = ts
           \<and> size_tree s' = size_tree s \<and> next_addr s' = Suc (next_addr s))"
      using w3 a(2) 3(2) ke ke2 lk by auto
  qed
qed

lemma insert_chat_new:
  assumes "wf_tree s t" and "k \<notin> set (keys s t)" and "t \<noteq> Lf"
  shows "returns (insert_chat k ttl ts s) (\<lambda>(s', a). \<exists>t' xs ys. wf_tree s' t' \<and> root s' = Some a
           \<and> a = next_addr s \<and> set (inorder t') = insert a (set (inorder t))
           \<and> keys s t = xs @ ys \<and> keys s' t' = xs @ take 63 k # ys
           \<and> (\<forall>x\<in>set xs. x < k) \<and> (\<forall>y\<in>set ys. k < y)
           \<and> key_at s' a = take 63 k
           \<and> title_at s' a = take 255 ttl \<and> timestamp_at s' a = ts
           \<and> size_tree s' = size_tree s + 1 \<and> next_addr s' = Suc (next_addr s))"
proof -
  define sc where "sc = fst (create_node k ttl ts s)"
  define new where "new = next_addr s"
  define fresh where "fresh = fresh_node k ttl ts"
  have cn: "create_node k ttl ts s = (sc, new)" by (simp add: sc_def new_def create_node_eq)
  have wsc: "wf_tree sc t" unfolding sc_def using assms(1) by (rule wf_tree_create_node)
  note w = wf_treeD[OF wsc]
  have nt: "new \<notin> set (inorder t)" unfolding new_def using assms(1) by (rule wf_tree_fresh)
  have sce: "size_tree sc = size_tree s" "next_addr sc = Suc new" "heap sc new = Some fresh"
    by (simp_all add: sc_def new_def create_node_eq fresh_def)
  have ke: "keys sc t = keys s t"
    unfolding keys_def
    by (rule map_cong) (use nt in \<open>auto simp: sc_def new_def create_node_eq key_at_def\<close>)
  from w(1) have r: "repr (heap sc) None t" "root sc = rootp t" "distinct (inorder t)"
    by (simp_all add: abs_tree_def)
  from assms(3) r obtain rt where rt: "root sc = Some rt" "rootp t = Some rt"
    by (cases t) auto
  have "k \<notin> key_at sc ` set (inorder t)" using assms(2) ke by (simp add: keys_def)
  with insert_walk_abs[of sc "[]" t k] r w(6) assms(3) obtain c' where
    c': "insert_walk (heap sc) k (rootp t) None = Some (Inr (hole_par c'))" "plug c' Lf = t"
      "0 < length c'" "\<forall>b\<in>set (before c'). key_at sc b < k" "\<forall>a\<in>set (after c'). k < key_at sc a"
    by (auto simp: keys_def)
  then obtain f c0 where fc: "c' = f # c0" by (cases c') auto
  define p where "p = frame_addr f"
  have hp: "hole_par c' = Some p" unfolding fc p_def by (cases f) auto
  have io: "inorder t = before c' @ after c'" using c'(2) inorder_plug[of c' Lf] by simp
  have pt: "p \<in> set (inorder t)" using hole_par_in[OF hp] io by auto
  then have pn: "p \<noteq> new" using nt by auto
  from repr_allocated[OF r(1) pt] obtain pn where pnn: "heap sc p = Some pn" by blast
  have kp: "key_at sc p = chat_id pn" using pnn by (simp add: key_at_def)
  define pn' where "pn' = (case f of InL _ _ \<Rightarrow> pn\<lparr>left := Some new\<rparr>
                                   | InR _ _ \<Rightarrow> pn\<lparr>right := Some new\<rparr>)"
  define s3 where "s3 = sc\<lparr>heap := (heap sc)(new := Some (fresh\<lparr>parent := Some p\<rparr>),
                                             p := Some pn'),
                           size_tree := size_tree sc + 1\<rparr>"
  have ins: "insert_chat k ttl ts s = splay (Some new) s3 \<bind> (\<lambda>s4. Some (s4, new))"
  proof (cases f)
    case (InL q rr)
    then have "p \<in> set (after c')" using fc p_def by simp
    with c'(5) kp have "k < chat_id pn" by auto
    then show ?thesis
      using cn rt c'(1) hp sce pnn pn InL
      by (simp add: insert_chat_def upd_node_def s3_def pn'_def strcmp_less)
  next
    case (InR ll q)
    then have "p \<in> set (before c')" using fc p_def by simp
    with c'(4) kp have "\<not> k < chat_id pn" by auto
    then show ?thesis
      using cn rt c'(1) hp sce pnn pn InR
      by (simp add: insert_chat_def upd_node_def s3_def pn'_def strcmp_less)
  qed
  have h3new: "heap s3 new = Some (fresh\<lparr>parent := Some p\<rparr>)"
    using pn by (simp add: s3_def)
  have h3p: "heap s3 p = Some pn'" by (simp add: s3_def)
  have h3: "heap s3 b = heap sc b" if "b \<noteq> p" "b \<in> set (inorder t)" for b
    using that nt by (auto simp: s3_def)
  have s3e: "root s3 = root sc" "size_tree s3 = size_tree sc + 1" "next_addr s3 = next_addr sc"
    by (simp_all add: s3_def)
  have pl: "payload pn' = payload pn" unfolding pn'_def by (cases f) simp_all
  have k3: "key_at s3 b = key_at sc b" "title_at s3 b = title_at sc b" if "b \<in> set (inorder t)" for b
    using that pnn h3p h3[of b] pl
    by (cases "b = p"; auto simp: key_at_def title_at_def payload_def)+
  have k3new: "key_at s3 new = take 63 k" "title_at s3 new = take 255 ttl" "timestamp_at s3 new = ts"
    using h3new by (simp_all add: key_at_def title_at_def timestamp_at_def fresh_def fresh_node_def)
  let ?T = "plug c' (Nd Lf new Lf)"
  have iT: "inorder ?T = before c' @ new # after c'" by (simp add: inorder_plug)
  from r(1) c'(2) have rc: "repr_ctx (heap sc) c' None"
    using repr_plug[of "heap sc" c' Lf] by simp
  have d: "distinct (before c' @ after c')" using r(3) io by simp
  have "repr_ctx (heap s3) c' (Some new)"
    using rc d
  proof (rule repr_ctx_hole)
    show "heap s3 a = heap sc a" if "a \<in> set (before c') \<union> set (after c')" "hole_par c' \<noteq> Some a" for a
      using that hp io by (intro h3) auto
    show "heap s3 q = Some (qn\<lparr>left := Some new\<rparr>)" if "c' = InL q rr # c1" "heap sc q = Some qn"
      for q rr c1 qn
      using that fc pnn h3p by (auto simp: p_def pn'_def)
    show "heap s3 q = Some (qn\<lparr>right := Some new\<rparr>)" if "c' = InR ll q # c1" "heap sc q = Some qn"
      for q ll c1 qn
      using that fc pnn h3p by (auto simp: p_def pn'_def)
  qed
  then have "repr (heap s3) None ?T"
    using h3new hp by (simp add: repr_plug fresh_def fresh_node_def)
  moreover have "root s3 = rootp ?T"
    using s3e r(2) c'(2) fc ctx_root_same[of c' None "Some new"] rootp_plug[of c' Lf]
    by (simp add: rootp_plug)
  moreover have "distinct (inorder ?T)" using d nt io by (simp add: iT)
  ultimately have abs3: "abs_tree s3 ?T" by (simp add: abs_tree_def)
  define xs ys where "xs = map (key_at sc) (before c')" and "ys = map (key_at sc) (after c')"
  have kxy: "keys s t = xs @ ys" using ke io by (simp add: keys_def xs_def ys_def)
  have k3xy: "keys s3 ?T = xs @ take 63 k # ys"
    using k3 k3new io by (simp add: keys_def iT xs_def ys_def)
  have bx: "\<forall>x\<in>set xs. x < k" "\<forall>y\<in>set ys. k < y" using c'(4,5) by (auto simp: xs_def ys_def)
  have lx: "\<forall>x\<in>set xs. length x \<le> 63" using w(4) io by (auto simp: xs_def)
  have srt: "sorted (xs @ take 63 k # ys)"
  proof -
    have "sorted (xs @ ys)" using w(6) ke kxy by simp
    moreover have "x \<le> take 63 k" if "x \<in> set xs" for x
      using that bx lx by (intro less_take_le) auto
    moreover have "take 63 k \<le> y" if "y \<in> set ys" for y
      using that bx take_le[of 63 k] by (meson le_less_trans less_imp_le)
    ultimately show ?thesis by (auto simp: sorted_append)
  qed
  have w3: "wf_tree s3 ?T"
  proof (rule wf_treeI)
    show "abs_tree s3 ?T" by fact
    show "size_tree s3 = int (length (inorder ?T))" using w(2) s3e io by (simp add: iT)
    show "b < next_addr s3" if "b \<in> set (inorder ?T)" for b
      using that w(3)[of b] s3e sce io by (auto simp: iT)
    show "length (key_at s3 b) \<le> 63" if "b \<in> set (inorder ?T)" for b
      using that w(4)[of b] k3[of b] k3new io by (auto simp: iT)
    show "length (title_at s3 b) \<le> 255" if "b \<in> set (inorder ?T)" for b
      using that w(5)[of b] k3[of b] k3new io by (auto simp: iT)
    show "sorted (keys s3 ?T)" using srt k3xy by simp
  qed
  have newT: "new \<in> set (inorder ?T)" by (simp add: iT)
  show ?thesis unfolding ins
  proof (rule returns_bind[OF splay_abs[OF abs3 newT]], elim exE conjE)
    fix s4 A B
    assume 4: "abs_tree s4 (Nd A new B)" "inorder (Nd A new B) = inorder ?T"
      "relinked (set (inorder ?T)) s3 s4"
    have w4: "wf_tree s4 (Nd A new B)" using w3 4 by (rule wf_tree_relinked)
    have "keys s4 (Nd A new B) = keys s3 (Nd A new B)" by (rule keys_relinked[OF 4(3)])
    also have "\<dots> = keys s3 ?T" unfolding keys_def 4(2) ..
    also have "\<dots> = xs @ take 63 k # ys" by (rule k3xy)
    finally have k4: "keys s4 (Nd A new B) = xs @ take 63 k # ys" .
    have r4: "root s4 = Some new" using 4(1) by (simp add: abs_tree_def)
    have p4: "key_at s4 new = take 63 k" "title_at s4 new = take 255 ttl"
        "timestamp_at s4 new = ts"
      using key_at_relinked[OF 4(3)] title_at_relinked[OF 4(3)] timestamp_at_relinked[OF 4(3)] k3new
      by simp_all
    have z4: "size_tree s4 = size_tree s + 1" "next_addr s4 = Suc (next_addr s)"
      using 4(3) s3e sce by (simp_all add: relinked_def new_def)
    have i4: "set (inorder (Nd A new B)) = insert new (set (inorder t))"
      unfolding 4(2) using io by (auto simp: iT)
    have "\<exists>t' xs ys. wf_tree s4 t' \<and> root s4 = Some new
           \<and> new = next_addr s \<and> set (inorder t') = insert new (set (inorder t))
           \<and> keys s t = xs @ ys \<and> keys s4 t' = xs @ take 63 k # ys
           \<and> (\<forall>x\<in>set xs. x < k) \<and> (\<forall>y\<in>set ys. k < y)
           \<and> key_at s4 new = take 63 k
           \<and> title_at s4 new = take 255 ttl \<and> timestamp_at s4 new = ts
           \<and> size_tree s4 = size_tree s + 1 \<and> next_addr s4 = Suc (next_addr s)"
      using w4 r4 new_def i4 kxy k4 bx p4 z4 by blast
    then show "returns (Some (s4, new)) (\<lambda>(s', a). \<exists>t' xs ys. wf_tree s' t' \<and> root s' = Some a
           \<and> a = next_addr s \<and> set (inorder t') = insert a (set (inorder t))
           \<and> keys s t = xs @ ys \<and> keys s' t' = xs @ take 63 k # ys
           \<and> (\<forall>x\<in>set xs. x < k) \<and> (\<forall>y\<in>set ys. k < y)
           \<and> key_at s' a = take 63 k
           \<and> title_at s' a = take 255 ttl \<and> timestamp_at s' a = ts
           \<and> size_tree s' = size_tree s + 1 \<and> next_addr s' = Suc (next_addr s))"
      by simp
  qed
qed

subsection \<open>Delete\<close>

lemma relinked_mono: "relinked X s s' \<Longrightarrow> X \<subseteq> Y \<Longrightarrow> relinked Y s s'"
  by (auto simp: relinked_def)

lemma max_left_loop_abs:
  "repr h par t \<Longrightarrow> rootp t = Some a \<Longrightarrow> max_left_loop h a = Some (last (inorder t))"
proof (induction t arbitrary: par a)
  case Lf
  then show ?case by simp
next
  case (Nd l b r)
  then have ab: "a = b" by simp
  from Nd.prems(1) obtain n where n: "h b = Some n" "right n = rootp r" "repr h (Some b) r"
    by (auto split: option.splits)
  show ?case
  proof (cases r)
    case Lf
    with n ab show ?thesis by (subst max_left_loop.simps) simp
  next
    case (Nd rl c rr)
    with Nd.IH(2)[OF n(3), of c] have "max_left_loop h c = Some (last (inorder r))" by simp
    with n ab Nd show ?thesis by (subst max_left_loop.simps) simp
  qed
qed

lemma set_root_child_abs:
  assumes "repr (heap s) par t" and "distinct (inorder t)"
  shows "returns (set_root_child (rootp t) s)
           (\<lambda>s'. abs_tree s' t \<and> relinked (set (inorder t)) s s')"
proof (cases t)
  case Lf
  then show ?thesis by (simp add: set_root_child_def abs_tree_def relinked_def)
next
  case (Nd l a r)
  with assms(1) obtain n where n: "heap s a = Some n" by (auto split: option.splits)
  define s' where "s' = s\<lparr>root := Some a, heap := (heap s)(a := Some (n\<lparr>parent := None\<rparr>))\<rparr>"
  have e: "set_root_child (rootp t) s = Some s'"
    using Nd n by (simp add: set_root_child_def upd_node_def s'_def)
  have "repr (heap s') None t"
    using assms
  proof (rule repr_reparent)
    show "heap s' b = heap s b" if "b \<in> set (inorder t)" "rootp t \<noteq> Some b" for b
      using that Nd by (simp add: s'_def)
    show "heap s' b = Some (m\<lparr>parent := None\<rparr>)" if "rootp t = Some b" "heap s b = Some m" for b m
      using that Nd n by (simp add: s'_def)
  qed
  moreover have "root s' = rootp t" by (simp add: s'_def Nd)
  ultimately have "abs_tree s' t" using assms(2) by (simp add: abs_tree_def)
  moreover have "relinked (set (inorder t)) s s'"
    using Nd n by (auto simp: relinked_def s'_def)
  ultimately show ?thesis using e by simp
qed

lemma delete_detach_abs:
  assumes "abs_tree s (Nd A a B)" and "A \<noteq> Lf" and "B \<noteq> Lf"
  shows "returns (delete_detach a s)
           (\<lambda>(sd, m, rb). m = last (inorder A) \<and> rootp B = Some rb \<and> abs_tree sd A
              \<and> repr (heap sd) None B \<and> heap sd a = heap s a
              \<and> relinked (set (inorder A) \<union> set (inorder B)) s sd)"
proof -
  from assms(2,3) obtain Al la Ar Bl rb Br where A: "A = Nd Al la Ar" and B: "B = Nd Bl rb Br"
    by (cases A; cases B) auto
  from assms(1) obtain n where n: "heap s a = Some n" "left n = Some la" "right n = Some rb"
     "repr (heap s) (Some a) A" "repr (heap s) (Some a) B"
    by (auto simp: abs_tree_def A B split: option.splits)
  from assms(1) have d: "distinct (inorder A @ a # inorder B)" by (simp add: abs_tree_def)
  from n(4,5) obtain ln rn where ln: "heap s la = Some ln" and rn: "heap s rb = Some rn"
    by (auto simp: A B split: option.splits)
  have ne: "la \<noteq> a" "rb \<noteq> a" "la \<noteq> rb" using d by (auto simp: A B)
  define sd where "sd = s\<lparr>heap := (heap s)(la := Some (ln\<lparr>parent := None\<rparr>),
                                            rb := Some (rn\<lparr>parent := None\<rparr>)),
                          root := Some la\<rparr>"
  have hA: "repr (heap sd) None A"
    using n(4)
  proof (rule repr_reparent)
    show "distinct (inorder A)" using d by simp
    show "heap sd b = heap s b" if "b \<in> set (inorder A)" "rootp A \<noteq> Some b" for b
      using that d by (auto simp: sd_def A B)
    show "heap sd b = Some (m\<lparr>parent := None\<rparr>)" if "rootp A = Some b" "heap s b = Some m" for b m
      using that ln ne by (auto simp: sd_def A)
  qed
  have hB: "repr (heap sd) None B"
    using n(5)
  proof (rule repr_reparent)
    show "distinct (inorder B)" using d by simp
    show "heap sd b = heap s b" if "b \<in> set (inorder B)" "rootp B \<noteq> Some b" for b
      using that d by (auto simp: sd_def A B)
    show "heap sd b = Some (m\<lparr>parent := None\<rparr>)" if "rootp B = Some b" "heap s b = Some m" for b m
      using that rn ne by (auto simp: sd_def B)
  qed
  have ml: "max_left_loop (heap sd) la = Some (last (inorder A))"
    using max_left_loop_abs[OF hA, of la] by (simp add: A)
  have "max_left_loop ((heap s)(la := Some (ln\<lparr>parent := None\<rparr>),
                                            rb := Some (rn\<lparr>parent := None\<rparr>))) la = Some (last (inorder A))"
    using ml by (simp add: sd_def)
  then have e: "delete_detach a s = Some (sd, last (inorder A), rb)"
    using n ln rn ne by (simp add: delete_detach_def upd_node_def sd_def)
  have "root sd = rootp A" "distinct (inorder A)" using d by (auto simp: sd_def A)
  with hA have "abs_tree sd A" by (simp add: abs_tree_def)
  moreover have "relinked (set (inorder A) \<union> set (inorder B)) s sd"
    using ln rn by (auto simp: relinked_def sd_def A B)
  moreover have "heap sd a = heap s a" using ne by (simp add: sd_def)
  ultimately show ?thesis using e hB B by simp
qed

lemma last_root_no_right:
  assumes "inorder (Nd A m B) = xs" and "m = last xs" and "distinct xs"
  shows "B = Lf"
proof (rule ccontr)
  assume "B \<noteq> Lf"
  then have ne: "inorder B \<noteq> []" by (cases B) auto
  then have "last xs = last (inorder B)" using assms(1) by auto
  then have "m \<in> set (inorder B)" using assms(2) ne by simp
  then show False using assms(1,3) by auto
qed

lemma delete_attach_abs:
  assumes "abs_tree s (Nd A m Lf)" and "repr (heap s) None B" and "rootp B = Some rb"
    and "distinct (inorder A @ m # inorder B)"
  shows "returns (delete_attach rb s)
           (\<lambda>s'. abs_tree s' (Nd A m B) \<and> right_at s' m = Some rb \<and> parent_at s' rb = Some m
                \<and> relinked (insert m (set (inorder B))) s s')"
proof -
  from assms(1) obtain mn where mn: "heap s m = Some mn" "parent mn = None" "left mn = rootp A"
      "repr (heap s) (Some m) A" "root s = Some m"
    by (auto simp: abs_tree_def split: option.splits)
  from repr_root[OF assms(2,3)] obtain rn where rn: "heap s rb = Some rn" by blast
  have rbB: "rb \<in> set (inorder B)" using assms(3) by (rule rootp_in)
  then have ne: "rb \<noteq> m" "rb \<notin> set (inorder A)" "m \<notin> set (inorder A)" "m \<notin> set (inorder B)"
    using assms(4) by auto
  define s' where "s' = s\<lparr>heap := (heap s)(m := Some (mn\<lparr>right := Some rb\<rparr>),
                                            rb := Some (rn\<lparr>parent := Some m\<rparr>))\<rparr>"
  have e: "delete_attach rb s = Some s'"
    using mn rn ne by (simp add: delete_attach_def upd_node_def s'_def)
  have hm: "heap s' m = Some (mn\<lparr>right := Some rb\<rparr>)" using ne by (simp add: s'_def)
  have hr: "heap s' rb = Some (rn\<lparr>parent := Some m\<rparr>)" by (simp add: s'_def)
  have ho: "heap s' b = heap s b" if "b \<noteq> m" "b \<noteq> rb" for b using that by (simp add: s'_def)
  have A': "repr (heap s') (Some m) A"
    using mn(4) by (rule repr_frame) (use ne in \<open>auto intro!: ho\<close>)
  have B': "repr (heap s') (Some m) B"
    using assms(2)
  proof (rule repr_reparent)
    show "distinct (inorder B)" using assms(4) by simp
    show "heap s' b = heap s b" if "b \<in> set (inorder B)" "rootp B \<noteq> Some b" for b
      using that assms(3) ne by (intro ho) auto
    show "heap s' b = Some (n\<lparr>parent := Some m\<rparr>)" if "rootp B = Some b" "heap s b = Some n" for b n
      using that assms(3) rn hr by simp
  qed
  have "repr (heap s') None (Nd A m B)" using A' B' hm mn assms(3) by simp
  moreover have "root s' = Some m" using mn(5) by (simp add: s'_def)
  ultimately have "abs_tree s' (Nd A m B)" using assms(4) by (simp add: abs_tree_def)
  moreover have "relinked (insert m (set (inorder B))) s s'"
    using mn rn rbB by (auto simp: relinked_def s'_def)
  moreover have "right_at s' m = Some rb" "parent_at s' rb = Some m"
    using hm hr by (simp_all add: right_at_def parent_at_def)
  ultimately show ?thesis using e by simp
qed

lemma delete_both_abs:
  assumes "abs_tree s (Nd A a B)" and "A \<noteq> Lf" and "B \<noteq> Lf"
  shows "\<exists>sd rb ssp sf A'. delete_detach a s = Some (sd, last (inorder A), rb)
           \<and> rootp B = Some rb
           \<and> splay (Some (last (inorder A))) sd = Some ssp
           \<and> abs_tree ssp (Nd A' (last (inorder A)) Lf)
           \<and> delete_attach rb ssp = Some sf
           \<and> delete_both a s = Some sf
           \<and> abs_tree sf (Nd A' (last (inorder A)) B)
           \<and> inorder A' @ [last (inorder A)] = inorder A
           \<and> right_at sf (last (inorder A)) = Some rb \<and> parent_at sf rb = Some (last (inorder A))
           \<and> heap sf a = heap s a
           \<and> relinked (set (inorder A) \<union> set (inorder B)) s sf"
proof -
  let ?m = "last (inorder A)"
  from assms(1) have d: "distinct (inorder A @ a # inorder B)" by (simp add: abs_tree_def)
  from delete_detach_abs[OF assms] obtain sd rb where
    sd: "delete_detach a s = Some (sd, ?m, rb)" "rootp B = Some rb" "abs_tree sd A"
      "repr (heap sd) None B" "heap sd a = heap s a"
      "relinked (set (inorder A) \<union> set (inorder B)) s sd"
    by (auto elim!: returnsE)
  have mA: "?m \<in> set (inorder A)" using assms(2) by (cases A) auto
  from splay_abs[OF sd(3) mA] obtain ssp A' B' where
    sp: "splay (Some ?m) sd = Some ssp" "abs_tree ssp (Nd A' ?m B')"
      "inorder (Nd A' ?m B') = inorder A" "relinked (set (inorder A)) sd ssp"
    by (auto elim!: returnsE)
  have dA: "distinct (inorder A)" using d by simp
  have B': "B' = Lf" using sp(3) refl dA by (rule last_root_no_right)
  have io: "inorder A' @ [?m] = inorder A" using sp(3) B' by simp
  have fr: "heap ssp b = heap sd b" if "b \<notin> set (inorder A)" for b
    using sp(4) that by (simp add: relinked_def)
  have rB: "repr (heap ssp) None B"
    using sd(4) by (rule repr_frame) (use d in \<open>auto intro!: fr\<close>)
  have "distinct ((inorder A' @ [?m]) @ a # inorder B)" unfolding io by (rule d)
  then have d': "distinct (inorder A' @ ?m # inorder B)" by auto
  from delete_attach_abs[OF sp(2)[unfolded B'] rB sd(2) d'] obtain sf where
    sf: "delete_attach rb ssp = Some sf" "abs_tree sf (Nd A' ?m B)"
      "right_at sf ?m = Some rb" "parent_at sf rb = Some ?m"
      "relinked (insert ?m (set (inorder B))) ssp sf"
    by (auto elim!: returnsE)
  have e: "delete_both a s = Some sf" using sd(1) sp(1) sf(1) by (simp add: delete_both_def)
  have r1: "relinked (set (inorder A) \<union> set (inorder B)) sd ssp"
    using sp(4) by (rule relinked_mono) auto
  have r2: "relinked (set (inorder A) \<union> set (inorder B)) ssp sf"
    using sf(5) by (rule relinked_mono) (use mA in auto)
  have rl: "relinked (set (inorder A) \<union> set (inorder B)) s sf"
    using sd(6) r1 r2 by (blast intro: relinked_trans)
  have "a \<notin> set (inorder A) \<union> set (inorder B)" using d by auto
  then have "heap sf a = heap s a" using rl by (simp add: relinked_def)
  then show ?thesis using sd(1,2) sp(1,2) B' sf e io rl by blast
qed

lemma delete_root_abs:
  assumes "abs_tree s (Nd A a B)"
  shows "\<exists>nn. heap s a = Some nn
           \<and> returns (if left nn = None then set_root_child (right nn) s
                      else if right nn = None then set_root_child (left nn) s
                      else delete_both a s)
                (\<lambda>s'. \<exists>T'. abs_tree s' T' \<and> inorder T' = inorder A @ inorder B
                        \<and> relinked (set (inorder A) \<union> set (inorder B)) s s')"
proof -
  from assms obtain nn where nn: "heap s a = Some nn" "left nn = rootp A" "right nn = rootp B"
     "repr (heap s) (Some a) A" "repr (heap s) (Some a) B"
    and d: "distinct (inorder A)" "distinct (inorder B)"
    by (auto simp: abs_tree_def split: option.splits)
  have "returns (if left nn = None then set_root_child (right nn) s
                      else if right nn = None then set_root_child (left nn) s
                      else delete_both a s)
                (\<lambda>s'. \<exists>T'. abs_tree s' T' \<and> inorder T' = inorder A @ inorder B
                        \<and> relinked (set (inorder A) \<union> set (inorder B)) s s')"
  proof (cases "A = Lf")
    case True
    have "returns (set_root_child (rootp B) s)
           (\<lambda>s'. \<exists>T'. abs_tree s' T' \<and> inorder T' = inorder A @ inorder B
                        \<and> relinked (set (inorder A) \<union> set (inorder B)) s s')"
      by (rule returns_weaken[OF set_root_child_abs[OF nn(5) d(2)]])
         (use True in \<open>auto intro!: exI[of _ B]\<close>)
    then show ?thesis using True nn by simp
  next
    case False
    then have la: "left nn \<noteq> None" using nn(2) by (cases A) auto
    show ?thesis
    proof (cases "B = Lf")
      case True
      have "returns (set_root_child (rootp A) s)
           (\<lambda>s'. \<exists>T'. abs_tree s' T' \<and> inorder T' = inorder A @ inorder B
                        \<and> relinked (set (inorder A) \<union> set (inorder B)) s s')"
        by (rule returns_weaken[OF set_root_child_abs[OF nn(4) d(1)]])
           (use True in \<open>auto intro!: exI[of _ A]\<close>)
      then show ?thesis using True la nn by auto
    next
      case B: False
      then have rb: "right nn \<noteq> None" using nn(3) by (cases B) auto
      from delete_both_abs[OF assms False B] obtain sf A' where
        sf: "delete_both a s = Some sf" "abs_tree sf (Nd A' (last (inorder A)) B)"
          "inorder A' @ [last (inorder A)] = inorder A"
          "relinked (set (inorder A) \<union> set (inorder B)) s sf"
        by blast
      have "inorder (Nd A' (last (inorder A)) B) = (inorder A' @ [last (inorder A)]) @ inorder B"
        by simp
      then have "inorder (Nd A' (last (inorder A)) B) = inorder A @ inorder B"
        unfolding sf(3) .
      with sf show ?thesis using la rb by auto
    qed
  qed
  with nn(1) show ?thesis by blast
qed

lemma sorted_remove_mid: "sorted (xs @ x # ys) \<Longrightarrow> sorted (xs @ (ys :: 'a :: linorder list))"
  by (auto simp: sorted_append)

lemma delete_chat_present:
  assumes "wf_tree s t" and "k \<in> set (keys s t)"
  shows "\<exists>s' t' a xs ys. delete_chat k s = Some (s', 1) \<and> wf_tree s' t'
           \<and> key_at s a = k \<and> inorder t = xs @ a # ys \<and> inorder t' = xs @ ys
           \<and> keys s' t' = map (key_at s) (xs @ ys) \<and> size_tree s' = size_tree s - 1"
proof -
  from find_node_present[OF assms] obtain a where
    a: "find_node k s = Some (Some a)" "a \<in> set (inorder t)" "key_at s a = k" by blast
  note w = wf_treeD[OF assms(1)]
  from splay_abs[OF w(1) a(2)] obtain s1 A B where
    s1: "splay (Some a) s = Some s1" "abs_tree s1 (Nd A a B)" "inorder (Nd A a B) = inorder t"
        "relinked (set (inorder t)) s s1"
    by (auto elim!: returnsE)
  from delete_root_abs[OF s1(2)] obtain nn s2 T' where
    nn: "heap s1 a = Some nn"
    and s2: "(if left nn = None then set_root_child (right nn) s1
              else if right nn = None then set_root_child (left nn) s1
              else delete_both a s1) = Some s2"
       "abs_tree s2 T'" "inorder T' = inorder A @ inorder B"
       "relinked (set (inorder A) \<union> set (inorder B)) s1 s2"
    by (auto elim!: returnsE)
  define s' where "s' = (free_node a s2)\<lparr>size_tree := size_tree (free_node a s2) - 1\<rparr>"
  have e: "delete_chat k s = Some (s', 1)"
    using a(1) s1(1) nn s2(1) by (simp add: delete_chat_def s'_def Let_def)
  have io: "inorder t = inorder A @ a # inorder B" using s1(3) by simp
  have d: "distinct (inorder A @ a # inorder B)" using s1(2) by (simp add: abs_tree_def)
  have aT: "a \<notin> set (inorder T')" using d s2(3) by auto
  have sub: "set (inorder T') \<subseteq> set (inorder t)" using io s2(3) by auto
  have h': "heap s' b = heap s2 b" if "b \<in> set (inorder T')" for b
    using that aT by (auto simp: s'_def free_node_def)
  have "repr (heap s') None T'"
    by (rule repr_frame[of "heap s2"]) (use s2(2) h' in \<open>auto simp: abs_tree_def\<close>)
  moreover have "root s' = root s2" by (simp add: s'_def free_node_def)
  ultimately have abs': "abs_tree s' T'" using s2(2) by (simp add: abs_tree_def)
  have kk: "key_at s' b = key_at s b" "title_at s' b = title_at s b" if "b \<in> set (inorder T')" for b
    using h'[OF that] key_at_relinked[OF s2(4), of b] key_at_relinked[OF s1(4), of b]
      title_at_relinked[OF s2(4), of b] title_at_relinked[OF s1(4), of b]
    by (simp_all add: key_at_def title_at_def)
  have ke: "keys s' T' = map (key_at s) (inorder A @ inorder B)"
    unfolding keys_def s2(3)[symmetric] by (rule map_cong) (use kk in auto)
  have sz: "size_tree s' = size_tree s - 1" "next_addr s' = next_addr s"
    using s1(4) s2(4) by (simp_all add: s'_def free_node_def relinked_def)
  have w': "wf_tree s' T'"
  proof (rule wf_treeI)
    show "abs_tree s' T'" by fact
    show "size_tree s' = int (length (inorder T'))" using sz w(2) io s2(3) by simp
    show "b < next_addr s'" if "b \<in> set (inorder T')" for b
      using that sub w(3)[of b] sz by auto
    show "length (key_at s' b) \<le> 63" if "b \<in> set (inorder T')" for b
      using that sub w(4)[of b] kk[of b] by auto
    show "length (title_at s' b) \<le> 255" if "b \<in> set (inorder T')" for b
      using that sub w(5)[of b] kk[of b] by auto
    show "sorted (keys s' T')"
      unfolding ke using w(6) io sorted_remove_mid[of "map (key_at s) (inorder A)" "key_at s a"
          "map (key_at s) (inorder B)"]
      by (simp add: keys_def)
  qed
  show ?thesis using e w' a(3) io s2(3) ke sz(1) by blast
qed

lemma delete_chat_absent:
  assumes "wf_tree s t" and "k \<notin> set (keys s t)"
  shows "delete_chat k s = Some (s, 0)"
  using find_node_absent[OF assms] by (simp add: delete_chat_def)

subsection \<open>Collect\<close>

lemma collect_inorder_abs:
  "repr h par t \<Longrightarrow>
   collect_inorder h (rootp t) acc = Some (acc @ take (MAX_CHATS - length acc) (inorder t))"
proof (induction t arbitrary: par acc)
  case Lf
  then show ?case by (subst collect_inorder.simps) simp
next
  case (Nd l a r)
  from Nd.prems obtain n where n: "h a = Some n" "left n = rootp l" "right n = rootp r"
     "repr h (Some a) l" "repr h (Some a) r"
    by (auto split: option.splits)
  show ?case
  proof (cases "MAX_CHATS \<le> length acc")
    case True
    then show ?thesis by (subst collect_inorder.simps) simp
  next
    case False
    let ?l1 = "acc @ take (MAX_CHATS - length acc) (inorder l)"
    have l1: "collect_inorder h (rootp l) acc = Some ?l1" using n(4) by (rule Nd.IH(1))
    have r1: "collect_inorder h (rootp r) l2 = Some (l2 @ take (MAX_CHATS - length l2) (inorder r))"
      for l2 using n(5) by (rule Nd.IH(2))
    have e: "collect_inorder h (Some a) acc
             = collect_inorder h (rootp r) (if length ?l1 < MAX_CHATS then ?l1 @ [a] else ?l1)"
      using False n l1 by (subst collect_inorder.simps) simp
    show ?thesis
    proof (cases "length ?l1 < MAX_CHATS")
      case True
      then have "length acc + length (inorder l) < MAX_CHATS" by auto
      then show ?thesis unfolding rootp.simps e r1 using True by (auto simp: take_Cons')
    next
      case F: False
      then have "MAX_CHATS - length acc \<le> length (inorder l)" using False by auto
      then show ?thesis unfolding rootp.simps e r1 using F by auto
    qed
  qed
qed

lemma collect_abs: "abs_tree s t \<Longrightarrow> collect s = Some (take MAX_CHATS (inorder t))"
  using collect_inorder_abs[of "heap s" None t "[]"] by (simp add: collect_def abs_tree_def)

lemma collect_keys_abs: "abs_tree s t \<Longrightarrow> collect_keys s = Some (take MAX_CHATS (keys s t))"
  by (simp add: collect_keys_def collect_abs keys_def take_map)

subsection \<open>Insert, summarised\<close>

lemma insert_chat_abs:
  assumes "wf_tree s t"
  shows "\<exists>s' a t'. insert_chat k ttl ts s = Some (s', a) \<and> wf_tree s' t' \<and> root s' = Some a
           \<and> key_at s' a = take 63 k \<and> title_at s' a = take 255 ttl \<and> timestamp_at s' a = ts
           \<and> size_tree s' = (if k \<in> set (keys s t) then size_tree s else size_tree s + 1)
           \<and> set (keys s' t') = insert (take 63 k) (set (keys s t))
           \<and> (distinct (keys s t) \<and> length k \<le> 63 \<longrightarrow> distinct (keys s' t'))"
proof (cases "k \<in> set (keys s t)")
  case True
  from insert_chat_existing[OF assms True, of ttl ts] obtain s' a t' where
    *: "insert_chat k ttl ts s = Some (s', a)" "wf_tree s' t'" "root s' = Some a"
       "keys s' t' = keys s t" "key_at s' a = k" "length k \<le> 63"
       "title_at s' a = take 255 ttl" "timestamp_at s' a = ts" "size_tree s' = size_tree s"
    by (auto elim!: returnsE)
  have "set (keys s' t') = insert (take 63 k) (set (keys s t))" using * True by auto
  with * True show ?thesis by auto
next
  case False
  show ?thesis
  proof (cases "t = Lf")
    case Lf: True
    from insert_chat_empty[OF assms[unfolded Lf], of k ttl ts] obtain s' a where
      *: "insert_chat k ttl ts s = Some (s', a)" "wf_tree s' (Nd Lf a Lf)"
         "key_at s' a = take 63 k" "title_at s' a = take 255 ttl" "timestamp_at s' a = ts"
         "size_tree s' = size_tree s + 1"
      by (auto elim!: returnsE)
    have "root s' = Some a" using *(2) by (simp add: wf_tree_def abs_tree_def)
    moreover have "keys s' (Nd Lf a Lf) = [take 63 k]" using *(3) by (simp add: keys_def)
    ultimately show ?thesis using * False Lf by (auto simp: keys_def)
  next
    case N: False
    from insert_chat_new[OF assms False N, of ttl ts] obtain s' a t' xs ys where
      *: "insert_chat k ttl ts s = Some (s', a)" "wf_tree s' t'" "root s' = Some a"
         "keys s t = xs @ ys" "keys s' t' = xs @ take 63 k # ys"
         "\<forall>x\<in>set xs. x < k" "\<forall>y\<in>set ys. k < y"
         "key_at s' a = take 63 k" "title_at s' a = take 255 ttl" "timestamp_at s' a = ts"
         "size_tree s' = size_tree s + 1"
      by (auto elim!: returnsE)
    have "set (keys s' t') = insert (take 63 k) (set (keys s t))" using *(4,5) by auto
    moreover have "distinct (keys s' t')" if "distinct (keys s t)" "length k \<le> 63"
      using that *(4,5,6,7) by auto
    ultimately show ?thesis using * False by auto
  qed
qed

lemma insert_chat_root_match:
  assumes "wf_tree s t" and "root s = Some r" and "key_at s r = k"
  shows "\<exists>s'. insert_chat k ttl ts s = Some (s', r) \<and> root s' = Some r \<and> key_at s' r = k
           \<and> title_at s' r = take 255 ttl \<and> timestamp_at s' r = ts
           \<and> size_tree s' = size_tree s \<and> find_node k s' = Some (Some r)"
proof -
  note w = wf_treeD[OF assms(1)]
  from w(1) assms(2) obtain l rr where t: "t = Nd l r rr"
    by (cases t) (auto simp: abs_tree_def)
  from w(1) obtain n where n: "heap s r = Some n" "parent n = None"
    by (auto simp: abs_tree_def t split: option.splits)
  have kn: "chat_id n = k" using assms(3) n by (simp add: key_at_def)
  have ne: "r \<noteq> next_addr s" using w(3)[of r] by (auto simp: t)
  define s' where "s' = s\<lparr>next_addr := Suc (next_addr s),
                          heap := (heap s)(r := Some (n\<lparr>title := take 255 ttl, timestamp := ts\<rparr>),
                                            next_addr s := None)\<rparr>"
  have w1: "insert_walk ((heap s)(next_addr s := Some (fresh_node k ttl ts))) k (Some r) None
             = Some (Inl r)"
    using n ne kn by (subst insert_walk.simps) (simp add: strcmp_eq)
  have sp: "splay_loop r st = Some st" if "heap st r = Some m" "parent m = None" for st m
    using that by (subst splay_loop.simps) simp
  have "insert_chat k ttl ts s = Some (s', r)"
    using assms(2) n ne w1
    by (simp add: sp insert_chat_def create_node_eq upd_node_def free_node_def splay_def s'_def
        strncpy_def MAX_TITLE_LEN_def fun_upd_twist)
  moreover have "find_node k s' = Some (Some r)"
    unfolding find_node_def using assms(2) n ne kn
    by (subst find_node_loop.simps) (simp add: s'_def strcmp_eq)
  moreover have "key_at s' r = k" "title_at s' r = take 255 ttl" "timestamp_at s' r = ts"
    using n ne kn by (simp_all add: s'_def key_at_def title_at_def timestamp_at_def)
  ultimately show ?thesis using assms(2) by (auto simp: s'_def)
qed

subsection \<open>Example states and lists\<close>

lemma size_example: "size_tree example_state = 3"
  by (simp add: example_state_def)

lemma split_at_distinct:
  assumes "us @ a # vs = us' @ a # vs'" and "distinct (us @ a # vs)"
  shows "us = us' \<and> vs = vs'"
proof -
  have "distinct (us' @ a # vs')" using assms by simp
  then have "a \<notin> set us'" "a \<notin> set vs'" by auto
  moreover have "a \<notin> set us" "a \<notin> set vs" using assms(2) by auto
  ultimately show ?thesis using assms(1) by (simp add: append_Cons_eq_iff)
qed

lemma inorder_example: "inorder example_shape = [0, 1, 2]"
  by (simp add: example_shape_def)

lemma wf_spine: "wf_tree (spine_state 101) (spine 0 101)"
  by code_simp

subsection \<open>Listing\<close>

lemma compare_by_timestamp_le: "compare_by_timestamp s a b \<le> 0 \<longleftrightarrow> timestamp_at s b \<le> timestamp_at s a"
  by (simp add: compare_by_timestamp_def)

lemma mset_merge_cmp: "mset (merge_cmp cmp xs ys) = mset xs + mset ys"
  by (induction cmp xs ys rule: merge_cmp.induct) auto

lemma set_merge_cmp: "set (merge_cmp cmp xs ys) = set xs \<union> set ys"
  by (induction cmp xs ys rule: merge_cmp.induct) auto

lemma sorted_merge_cmp:
  "\<forall>a b. cmp a b \<le> 0 \<longleftrightarrow> f a \<le> (f b :: 'k :: linorder) \<Longrightarrow>
   sorted (map f xs) \<Longrightarrow> sorted (map f ys) \<Longrightarrow> sorted (map f (merge_cmp cmp xs ys))"
proof (induction cmp xs ys rule: merge_cmp.induct)
  case (3 cmp x xs y ys)
  show ?case
  proof (cases "cmp x y \<le> 0")
    case True
    then have xy: "f x \<le> f y" using 3(3) by simp
    have "sorted (map f (merge_cmp cmp xs (y # ys)))" using 3 True by simp
    moreover have "\<forall>b\<in>set xs \<union> set (y # ys). f x \<le> f b"
      using 3(4,5) xy by (auto intro: order_trans)
    ultimately show ?thesis using True by (simp add: set_merge_cmp)
  next
    case False
    then have yx: "f y \<le> f x" using 3(3) by (simp add: linorder_not_le less_imp_le)
    have "sorted (map f (merge_cmp cmp (x # xs) ys))" using 3 False by simp
    moreover have "\<forall>b\<in>set (x # xs) \<union> set ys. f y \<le> f b"
      using 3(4,5) yx by (auto intro: order_trans)
    ultimately show ?thesis using False by (simp add: set_merge_cmp)
  qed
qed auto

lemma filter_merge_cmp:
  "\<forall>a b. cmp a b \<le> 0 \<longleftrightarrow> f a \<le> (f b :: 'k :: linorder) \<Longrightarrow>
   sorted (map f xs) \<Longrightarrow> sorted (map f ys) \<Longrightarrow>
   filter (\<lambda>a. f a = k) (merge_cmp cmp xs ys)
   = filter (\<lambda>a. f a = k) xs @ filter (\<lambda>a. f a = k) ys"
proof (induction cmp xs ys rule: merge_cmp.induct)
  case (3 cmp x xs y ys)
  show ?case
  proof (cases "cmp x y \<le> 0")
    case True
    then show ?thesis using 3 by simp
  next
    case False
    then have lt: "f y < f x" using 3(3) by (simp add: linorder_not_le)
    have ih: "filter (\<lambda>a. f a = k) (merge_cmp cmp (x # xs) ys)
         = filter (\<lambda>a. f a = k) (x # xs) @ filter (\<lambda>a. f a = k) ys"
      using 3 False by simp
    show ?thesis
    proof (cases "f y = k")
      case k: True
      have "\<forall>a\<in>set (x # xs). f a \<noteq> k" using 3(4) lt k by auto
      then have "filter (\<lambda>a. f a = k) (x # xs) = []" by (simp add: filter_empty_conv)
      then show ?thesis using False ih k by simp
    next
      case nk: False
      then show ?thesis using False ih by simp
    qed
  qed
qed auto

lemma qsort_stable:
  "\<forall>a b. cmp a b \<le> 0 \<longleftrightarrow> f a \<le> (f b :: 'k :: linorder) \<Longrightarrow>
   mset (qsort cmp xs) = mset xs \<and> sorted (map f (qsort cmp xs))
   \<and> (\<forall>k. filter (\<lambda>a. f a = k) (qsort cmp xs) = filter (\<lambda>a. f a = k) xs)"
proof (induction cmp xs rule: qsort.induct)
  case (1 cmp xs)
  note c = "1.prems"
  show ?case
  proof (cases "length xs \<le> 1")
    case True
    then have "sorted (map f xs)" by (cases xs) (auto simp: le_Suc_eq)
    with True show ?thesis by (subst (1 2 3) qsort.simps) simp
  next
    case False
    define n where "n = length xs div 2"
    define l where "l = qsort cmp (take n xs)"
    define r where "r = qsort cmp (drop n xs)"
    have l: "mset l = mset (take n xs)" "sorted (map f l)"
        "\<And>k. filter (\<lambda>a. f a = k) l = filter (\<lambda>a. f a = k) (take n xs)"
      unfolding l_def n_def using "1.IH"(1)[OF False c] by blast+
    have r: "mset r = mset (drop n xs)" "sorted (map f r)"
        "\<And>k. filter (\<lambda>a. f a = k) r = filter (\<lambda>a. f a = k) (drop n xs)"
      unfolding r_def n_def using "1.IH"(2)[OF False c] by blast+
    have e: "qsort cmp xs = merge_cmp cmp l r"
      unfolding l_def r_def n_def using False by (subst qsort.simps) (simp only: if_False)
    have "mset (take n xs) + mset (drop n xs) = mset (take n xs @ drop n xs)"
      by (simp only: mset_append)
    also have "\<dots> = mset xs" by (simp only: append_take_drop_id)
    finally have td: "mset (take n xs) + mset (drop n xs) = mset xs" .
    have m: "mset (qsort cmp xs) = mset xs"
      unfolding e by (simp add: mset_merge_cmp l(1) r(1) td)
    have s: "sorted (map f (qsort cmp xs))"
      unfolding e using c l(2) r(2) by (rule sorted_merge_cmp)
    have "filter (\<lambda>a. f a = k) (qsort cmp xs) = filter (\<lambda>a. f a = k) xs" for k
    proof -
      have "filter (\<lambda>a. f a = k) (qsort cmp xs)
            = filter (\<lambda>a. f a = k) (take n xs) @ filter (\<lambda>a. f a = k) (drop n xs)"
        unfolding e using filter_merge_cmp[OF c l(2) r(2), of k] l(3) r(3) by simp
      also have "\<dots> = filter (\<lambda>a. f a = k) (take n xs @ drop n xs)"
        by (simp only: filter_append)
      also have "\<dots> = filter (\<lambda>a. f a = k) xs" by (simp only: append_take_drop_id)
      finally show ?thesis .
    qed
    with m s show ?thesis by blast
  qed
qed

lemma qsort_sort_key:
  assumes "\<forall>a b. cmp a b \<le> 0 \<longleftrightarrow> f a \<le> (f b :: 'k :: linorder)"
  shows "qsort cmp xs = sort_key f xs"
proof -
  note q = qsort_stable[OF assms, of xs]
  have "sort_key f xs = qsort cmp xs"
  proof (rule properties_for_sort_key)
    show "mset (qsort cmp xs) = mset xs" using q by blast
    show "sorted (map f (qsort cmp xs))" using q by blast
    show "filter (\<lambda>x. f k = f x) (qsort cmp xs) = filter (\<lambda>x. f k = f x) xs" for k
    proof -
      have "(\<lambda>x. f k = f x) = (\<lambda>x. f x = f k)" by auto
      then show ?thesis using q by simp
    qed
  qed
  then show ?thesis by simp
qed


lemma output_list_collect:
  "output_list s = map_option (stable_by_timestamp s) (collect s)"
proof -
  have "\<forall>a b. compare_by_timestamp s a b \<le> 0 \<longleftrightarrow> - timestamp_at s a \<le> - timestamp_at s b"
    by (simp add: compare_by_timestamp_le)
  then have "qsort (compare_by_timestamp s) xs = sort_key (\<lambda>a. - timestamp_at s a) xs" for xs
    by (rule qsort_sort_key)
  then show ?thesis by (simp add: output_list_def stable_by_timestamp_def fun_eq_iff option.map_comp cong: option.map_cong)
qed

subsection \<open>Every reachable state is a well-formed tree\<close>

lemma wf_tree_create: "wf_tree create_splay_tree Lf"
  by (simp add: wf_tree_def abs_tree_def keys_def create_splay_tree_def)

lemma apply_op_wf_tree:
  assumes "wf_tree s t"
  shows "\<exists>s' t'. apply_op x s = Some s' \<and> wf_tree s' t'
           \<and> (distinct (keys s t) \<and> short_key_op x \<longrightarrow> distinct (keys s' t'))"
proof (cases x)
  case (Insert k ttl ts)
  from insert_chat_abs[OF assms, of k ttl ts] obtain s' a t' where
    "insert_chat k ttl ts s = Some (s', a)" "wf_tree s' t'"
    "distinct (keys s t) \<and> length k \<le> 63 \<longrightarrow> distinct (keys s' t')"
    by blast
  then show ?thesis using Insert by (auto simp: MAX_ID_LEN_def)
next
  case (Delete k)
  show ?thesis
  proof (cases "k \<in> set (keys s t)")
    case True
    from delete_chat_present[OF assms True] obtain s' t' a xs ys where
      *: "delete_chat k s = Some (s', 1)" "wf_tree s' t'" "inorder t = xs @ a # ys"
         "keys s' t' = map (key_at s) (xs @ ys)"
      by blast
    have "distinct (keys s' t')" if "distinct (keys s t)"
      using that *(3,4) by (auto simp: keys_def)
    with * Delete show ?thesis by auto
  next
    case False
    from delete_chat_absent[OF assms False] Delete assms show ?thesis by auto
  qed
qed

lemma run_wf_tree:
  assumes "wf_tree s t"
  shows "\<exists>s' t'. run ops s = Some s' \<and> wf_tree s' t'
           \<and> (distinct (keys s t) \<and> list_all short_key_op ops \<longrightarrow> distinct (keys s' t'))"
  using assms
proof (induction ops arbitrary: s t)
  case Nil
  then show ?case by auto
next
  case (Cons x ops)
  from apply_op_wf_tree[OF Cons.prems, of x] obtain s1 t1 where
    1: "apply_op x s = Some s1" "wf_tree s1 t1"
       "distinct (keys s t) \<and> short_key_op x \<longrightarrow> distinct (keys s1 t1)"
    by blast
  from Cons.IH[OF 1(2)] obtain s' t' where
    2: "run ops s1 = Some s'" "wf_tree s' t'"
       "distinct (keys s1 t1) \<and> list_all short_key_op ops \<longrightarrow> distinct (keys s' t')"
    by blast
  from 1 2 show ?case by auto
qed

lemma run_short_keys_strictly_ascending:
  assumes "list_all short_key_op ops"
  shows "\<exists>s ks. run ops create_splay_tree = Some s \<and> collect_keys s = Some ks
           \<and> sorted_wrt (<) ks"
proof -
  from run_wf_tree[OF wf_tree_create, of ops] assms obtain s t where
    *: "run ops create_splay_tree = Some s" "wf_tree s t" "distinct (keys s t)"
    by (auto simp: keys_def)
  note w = wf_treeD[OF *(2)]
  have "sorted_wrt (<) (keys s t)" using w(6) *(3) by (simp add: strict_sorted_iff)
  then have "sorted_wrt (<) (take MAX_CHATS (keys s t))"
    by (rule sorted_wrt_take)
  with collect_keys_abs[OF w(1)] *(1) show ?thesis by blast
qed

subsection \<open>Titles without a backslash survive the file\<close>

lemma json_escape_loop_escaped:
  "length out + 2 * length cs + 2 \<le> max_len \<Longrightarrow>
   json_escape_loop cs out max_len = out @ escaped cs"
proof (induction cs arbitrary: out)
  case Nil
  then show ?case by simp
next
  case (Cons c cs)
  then have lt: "int (length out) < int max_len - 2" by simp
  show ?case
    using Cons.prems lt by (simp add: Cons.IH Let_def)
qed

lemma json_escape_escaped:
  "length ttl < MAX_TITLE_LEN \<Longrightarrow> json_escape ttl (2 * MAX_TITLE_LEN) = escaped ttl"
  using json_escape_loop_escaped[of "[]" ttl "2 * MAX_TITLE_LEN"]
  by (simp add: json_escape_def MAX_TITLE_LEN_def)

lemma load_title_loop_escaped:
  assumes "CHR 0x5C \<notin> set cs"
    and "length acc + length (filter (\<lambda>c. c \<noteq> CHR 0x0D) cs) < MAX_TITLE_LEN"
  shows "load_title_loop (escaped cs @ CHR 0x22 # rest) acc
         = acc @ filter (\<lambda>c. c \<noteq> CHR 0x0D) cs"
  using assms
proof (induction cs arbitrary: acc)
  case Nil
  then show ?case by (cases rest) (simp_all add: MAX_TITLE_LEN_def)
next
  case (Cons c cs)
  from Cons.prems have nb: "CHR 0x5C \<notin> set cs" "c \<noteq> CHR 0x5C" by auto
  consider "c = CHR 0x22" | "c = CHR 0x0A" | "c = CHR 0x0D"
    | "c \<noteq> CHR 0x22" "c \<noteq> CHR 0x0A" "c \<noteq> CHR 0x0D" by blast
  then show ?case
  proof cases
    case 1
    then have la: "length acc < MAX_TITLE_LEN - 1" using Cons.prems(2) by (simp add: MAX_TITLE_LEN_def)
    have "load_title_loop (escaped cs @ CHR 0x22 # rest) (acc @ [CHR 0x22])
          = (acc @ [CHR 0x22]) @ filter (\<lambda>c. c \<noteq> CHR 0x0D) cs"
      using Cons.prems(2) 1 nb by (intro Cons.IH) auto
    then show ?thesis using 1 la by simp
  next
    case 2
    then have la: "length acc < MAX_TITLE_LEN - 1" using Cons.prems(2) by (simp add: MAX_TITLE_LEN_def)
    have "load_title_loop (escaped cs @ CHR 0x22 # rest) (acc @ [CHR 0x0A])
          = (acc @ [CHR 0x0A]) @ filter (\<lambda>c. c \<noteq> CHR 0x0D) cs"
      using Cons.prems(2) 2 nb by (intro Cons.IH) auto
    then show ?thesis using 2 la by simp
  next
    case 3
    have "load_title_loop (escaped cs @ CHR 0x22 # rest) acc
          = acc @ filter (\<lambda>c. c \<noteq> CHR 0x0D) cs"
      using Cons.prems(2) 3 nb by (intro Cons.IH) auto
    then show ?thesis using 3 by simp
  next
    case 4
    then have la: "length acc < MAX_TITLE_LEN - 1" using Cons.prems(2) by (simp add: MAX_TITLE_LEN_def)
    obtain d ds where dd: "escaped cs @ CHR 0x22 # rest = d # ds"
      by (cases "escaped cs @ CHR 0x22 # rest") auto
    have "load_title_loop (escaped cs @ CHR 0x22 # rest) (acc @ [c])
          = (acc @ [c]) @ filter (\<lambda>c. c \<noteq> CHR 0x0D) cs"
      using Cons.prems(2) 4 nb by (intro Cons.IH) auto
    then show ?thesis using 4 la nb dd by simp
  qed
qed

lemma title_round_trip_without_backslash:
  assumes "CHR 0x5C \<notin> set ttl" and "length ttl < MAX_TITLE_LEN"
  shows "title_round_trip ttl rest = filter (\<lambda>c. c \<noteq> CHR 0x0D) ttl"
proof -
  have "length (filter (\<lambda>c. c \<noteq> CHR 0x0D) ttl) \<le> length ttl" by simp
  from this assms(2) have "length (filter (\<lambda>c. c \<noteq> CHR 0x0D) ttl) < MAX_TITLE_LEN"
    by (rule le_less_trans)
  then have "length ([] :: string) + length (filter (\<lambda>c. c \<noteq> CHR 0x0D) ttl) < MAX_TITLE_LEN"
    by simp
  from load_title_loop_escaped[OF assms(1) this, of rest] show ?thesis
    by (simp add: title_round_trip_def saved_title_text_def json_escape_escaped[OF assms(2)])
qed

subsection \<open>Delete on trees with pairwise different keys\<close>

lemma delete_chat_distinct_keys:
  assumes "wf_tree s t" and "distinct (keys s t)"
  shows "(k \<in> set (keys s t) \<longrightarrow>
            (\<exists>s'. delete_chat k s = Some (s', 1) \<and> size_tree s' = size_tree s - 1
                 \<and> find_node k s' = Some None))
       \<and> (k \<notin> set (keys s t) \<longrightarrow> delete_chat k s = Some (s, 0))"
proof (intro conjI impI)
  assume k: "k \<in> set (keys s t)"
  from delete_chat_present[OF assms(1) k] obtain s' t' a xs ys where
    *: "delete_chat k s = Some (s', 1)" "wf_tree s' t'" "key_at s a = k" "inorder t = xs @ a # ys"
       "keys s' t' = map (key_at s) (xs @ ys)" "size_tree s' = size_tree s - 1"
    by blast
  have "k \<notin> set (keys s' t')" using assms(2) *(3,4,5) by (auto simp: keys_def)
  from find_node_absent[OF *(2) this] * show
    "\<exists>s'. delete_chat k s = Some (s', 1) \<and> size_tree s' = size_tree s - 1
        \<and> find_node k s' = Some None" by blast
next
  assume "k \<notin> set (keys s t)"
  then show "delete_chat k s = Some (s, 0)" by (rule delete_chat_absent[OF assms(1)])
qed

section \<open>The claims\<close>

lemma wf_example: "wf_tree example_state example_shape"
  by (simp add: wf_tree_def abs_tree_def keys_def example_state_def example_shape_def key_at_def
      title_at_def MAX_ID_LEN_def MAX_TITLE_LEN_def)

lemma keys_example: "keys example_state example_shape = [''s1'', ''s2'', ''s3'']"
  by (simp add: keys_def example_state_def example_shape_def key_at_def)

text \<open>
  C1. The in-order key sequence is not strictly ascending in every state reached from the
  empty tree by inserts and deletes. \<open>insert_chat\<close> stores the key cut to 63 characters
  but compares the uncut key with the stored ones, so a key of 64 characters never
  compares equal to its stored form: inserting it twice makes two nodes with the same
  stored key, and the collected key sequence holds that key twice. (For operations whose
  inserted keys all have at most 63 characters the collected sequence is strictly
  ascending: \<open>run_short_keys_strictly_ascending\<close>.)
\<close>

theorem long_key_inserted_twice_duplicates:
  "(run [Insert (replicate 64 (CHR ''a'')) ''x'' 1, Insert (replicate 64 (CHR ''a'')) ''y'' 2]
      create_splay_tree \<bind> collect_keys)
   = Some [replicate 63 (CHR ''a''), replicate 63 (CHR ''a'')]"
  by code_simp

text \<open>
  C2. For every well-formed tree and every key \<open>k\<close> stored in it, \<open>access_chat\<close> returns
  a node that is then the root and holds \<open>k\<close>; for a key that is not stored it returns
  \<open>NULL\<close> and leaves the whole state as it was.
\<close>

theorem access_chat_splays_to_root:
  assumes "wf_tree s t"
  shows "(k \<in> set (keys s t) \<longrightarrow>
            (\<exists>s' r. access_chat k s = Some (s', Some r) \<and> root s' = Some r \<and> key_at s' r = k))
       \<and> (k \<notin> set (keys s t) \<longrightarrow> access_chat k s = Some (s, None))"
proof (intro conjI impI)
  assume "k \<in> set (keys s t)"
  with access_chat_present[OF assms] show
    "\<exists>s' r. access_chat k s = Some (s', Some r) \<and> root s' = Some r \<and> key_at s' r = k"
    by blast
next
  assume "k \<notin> set (keys s t)"
  with find_node_absent[OF assms] show "access_chat k s = Some (s, None)"
    by (simp add: access_chat_def)
qed

theorem access_chat_splays_to_root_witness:
  "wf_tree example_state example_shape
   \<and> ''s1'' \<in> set (keys example_state example_shape)
   \<and> (\<exists>s' r. access_chat ''s1'' example_state = Some (s', Some r) \<and> root s' = Some r
         \<and> key_at s' r = ''s1'')
   \<and> ''zz'' \<notin> set (keys example_state example_shape)
   \<and> access_chat ''zz'' example_state = Some (example_state, None)"
  using access_chat_splays_to_root[OF wf_example, of "''s1''"]
    access_chat_splays_to_root[OF wf_example, of "''zz''"] wf_example
  by (simp add: keys_example)

text \<open>
  C3, amended. For every well-formed tree and every input, \<open>insert_chat\<close> returns a node
  that is then the root and whose key is the inserted key cut to its first
  \<open>MAX_ID_LEN - 1 = 63\<close> characters. For a key of at most 63 characters the root key is the
  inserted key, and \<open>size\<close> has grown by exactly one if the key was absent and is unchanged
  if it was present.
\<close>

theorem insert_chat_root_and_size:
  assumes "wf_tree s t"
  shows "\<exists>s' a. insert_chat k ttl ts s = Some (s', a) \<and> root s' = Some a
           \<and> key_at s' a = take (MAX_ID_LEN - 1) k
           \<and> (length k < MAX_ID_LEN \<longrightarrow>
                 key_at s' a = k
                 \<and> size_tree s' = (if k \<in> set (keys s t) then size_tree s else size_tree s + 1))"
proof -
  from insert_chat_abs[OF assms, of k ttl ts] obtain s' a where
    *: "insert_chat k ttl ts s = Some (s', a)" "root s' = Some a" "key_at s' a = take 63 k"
       "size_tree s' = (if k \<in> set (keys s t) then size_tree s else size_tree s + 1)"
    by blast
  then show ?thesis by (auto simp: MAX_ID_LEN_def)
qed

text \<open>C3 at two inputs: a new key and a stored key, into the three-node example.\<close>

theorem insert_chat_root_and_size_witness:
  "wf_tree example_state example_shape
   \<and> length ''s4'' < MAX_ID_LEN \<and> ''s4'' \<notin> set (keys example_state example_shape)
   \<and> (\<exists>s' a. insert_chat ''s4'' ''Notes'' 300 example_state = Some (s', a) \<and> root s' = Some a
         \<and> key_at s' a = ''s4'' \<and> size_tree s' = 4)
   \<and> length ''s1'' < MAX_ID_LEN \<and> ''s1'' \<in> set (keys example_state example_shape)
   \<and> (\<exists>s' a. insert_chat ''s1'' ''Notes'' 300 example_state = Some (s', a) \<and> root s' = Some a
         \<and> key_at s' a = ''s1'' \<and> size_tree s' = 3)"
  using insert_chat_root_and_size[OF wf_example, of "''s4''" "''Notes''" 300]
    insert_chat_root_and_size[OF wf_example, of "''s1''" "''Notes''" 300] wf_example
  by (simp add: keys_example MAX_ID_LEN_def size_example)

text \<open>
  C3 as stated fails: after inserting a key of 64 characters into the empty tree, the
  root key is its first 63 characters and not the inserted key.
\<close>

theorem insert_chat_root_key_counterexample:
  "(case insert_chat (replicate 64 (CHR ''a'')) ''t'' 1 create_splay_tree of
      None \<Rightarrow> False
    | Some (s', a) \<Rightarrow> root s' = Some a \<and> key_at s' a = replicate 63 (CHR ''a'')
                      \<and> key_at s' a \<noteq> replicate 64 (CHR ''a''))"
  by code_simp

text \<open>
  C4. Deleting a stored key does not always make a following \<open>find_node\<close> of that key
  return \<open>NULL\<close>. After a key \<open>K\<close> of 64 characters has been inserted twice from the empty
  tree, the tree holds two nodes whose stored key is the first 63 characters of \<open>K\<close>
  (C1). \<open>delete_chat\<close> of that 63-character key returns 1 and \<open>size\<close> goes from 2 to 1,
  but the other node remains and \<open>find_node\<close> of the key returns it, node 0. (For
  well-formed trees with pairwise different keys the claim holds:
  \<open>delete_chat_distinct_keys\<close>; an absent key gives 0 and the state unchanged in every
  well-formed tree: \<open>delete_chat_absent\<close>.)
\<close>

theorem delete_chat_leaves_duplicate_key:
  "(case run [Insert (replicate 64 (CHR ''a'')) ''x'' 1, Insert (replicate 64 (CHR ''a'')) ''y'' 2]
           create_splay_tree of
      None \<Rightarrow> False
    | Some s \<Rightarrow>
        size_tree s = 2 \<and> collect_keys s = Some [replicate 63 (CHR ''a''), replicate 63 (CHR ''a'')]
        \<and> (case delete_chat (replicate 63 (CHR ''a'')) s of
             None \<Rightarrow> False
           | Some (s', r) \<Rightarrow> r = 1 \<and> size_tree s' = 1
               \<and> collect_keys s' = Some [replicate 63 (CHR ''a'')]
               \<and> find_node (replicate 63 (CHR ''a'')) s' = Some (Some 0)))"
  by code_simp

text \<open>
  C5. Let \<open>delete_chat\<close> remove a node \<open>a\<close> that has an in-order predecessor \<open>m\<close> and an
  in-order successor. After \<open>a\<close> is splayed to the root it has a left child \<open>L\<close> and a
  right child \<open>R\<close>. Detaching clears the parent of both and makes \<open>L\<close> the tree root, and
  the node found by following right children from \<open>L\<close> is \<open>m\<close>. After the splay of \<open>m\<close>,
  \<open>m\<close> is the tree root and has no right child. After attaching, the tree root is \<open>m\<close>,
  its right child is \<open>R\<close> and the parent of \<open>R\<close> is \<open>m\<close>; this state, with \<open>a\<close> freed and
  \<open>size\<close> decreased, is the result of \<open>delete_chat\<close>.
\<close>

theorem delete_two_children_splice:
  assumes "wf_tree s t" and "find_node k s = Some (Some a)"
    and "inorder t = xs @ m # a # y # ys"
  shows "\<exists>s1 L R sd ssp sf.
           splay (Some a) s = Some s1 \<and> left_at s1 a = Some L \<and> right_at s1 a = Some R
         \<and> delete_detach a s1 = Some (sd, m, R)
         \<and> root sd = Some L \<and> parent_at sd L = None \<and> parent_at sd R = None
         \<and> splay (Some m) sd = Some ssp \<and> root ssp = Some m \<and> right_at ssp m = None
         \<and> delete_attach R ssp = Some sf
         \<and> root sf = Some m \<and> right_at sf m = Some R \<and> parent_at sf R = Some m
         \<and> delete_chat k s = Some ((free_node a sf)\<lparr>size_tree := size_tree s - 1\<rparr>, 1)"
proof -
  note w = wf_treeD[OF assms(1)]
  have at: "a \<in> set (inorder t)" using assms(3) by simp
  from splay_abs[OF w(1) at] obtain s1 A B where
    s1: "splay (Some a) s = Some s1" "abs_tree s1 (Nd A a B)" "inorder (Nd A a B) = inorder t"
        "relinked (set (inorder t)) s s1"
    by (auto elim!: returnsE)
  have d: "distinct (inorder A @ a # inorder B)" using s1(2) by (simp add: abs_tree_def)
  have "inorder A @ a # inorder B = (xs @ [m]) @ a # (y # ys)" using s1(3) assms(3) by simp
  from split_at_distinct[OF this d] have io: "inorder A = xs @ [m]" "inorder B = y # ys" by simp_all
  then have ne: "A \<noteq> Lf" "B \<noteq> Lf" by auto
  have lm: "last (inorder A) = m" using io by simp
  from s1(2) obtain nn where nn: "heap s1 a = Some nn" "left nn = rootp A" "right nn = rootp B"
    by (auto simp: abs_tree_def split: option.splits)
  from ne obtain L R where LR: "rootp A = Some L" "rootp B = Some R"
    by (cases A; cases B) auto
  from delete_detach_abs[OF s1(2) ne] obtain sd rb where
    sd: "delete_detach a s1 = Some (sd, m, rb)" "rootp B = Some rb" "abs_tree sd A"
      "repr (heap sd) None B"
    using lm by (auto elim!: returnsE)
  have rbR: "rb = R" using sd(2) LR by simp
  from delete_both_abs[OF s1(2) ne] sd(1) lm obtain ssp sf A' where
    b: "splay (Some m) sd = Some ssp" "abs_tree ssp (Nd A' m Lf)"
       "delete_attach rb ssp = Some sf" "delete_both a s1 = Some sf"
       "abs_tree sf (Nd A' m B)" "right_at sf m = Some rb" "parent_at sf rb = Some m"
       "relinked (set (inorder A) \<union> set (inorder B)) s1 sf"
    by auto
  have "root sd = Some L" "parent_at sd L = None"
    using sd(3) LR by (cases A; auto simp: abs_tree_def parent_at_def split: option.splits)+
  moreover have "parent_at sd R = None"
    using sd(4) LR by (cases B) (auto simp: parent_at_def split: option.splits)
  moreover have "root ssp = Some m" "right_at ssp m = None"
    using b(2) by (auto simp: abs_tree_def right_at_def split: option.splits)
  moreover have "root sf = Some m" using b(5) by (simp add: abs_tree_def)
  moreover have "left_at s1 a = Some L" "right_at s1 a = Some R"
    using nn LR by (simp_all add: left_at_def right_at_def)
  moreover have "size_tree sf = size_tree s" using s1(4) b(8) by (simp add: relinked_def)
  then have "delete_chat k s = Some ((free_node a sf)\<lparr>size_tree := size_tree s - 1\<rparr>, 1)"
    using assms(2) s1(1) nn LR b(4) by (simp add: delete_chat_def free_node_def)
  ultimately show ?thesis using s1(1) sd(1) b(1,3,6,7) rbR by blast
qed

theorem delete_two_children_splice_witness:
  "wf_tree example_state example_shape \<and> find_node ''s2'' example_state = Some (Some 1)
   \<and> inorder example_shape = [] @ 0 # 1 # 2 # []
   \<and> (\<exists>s1 L R sd ssp sf.
           splay (Some 1) example_state = Some s1 \<and> left_at s1 1 = Some L \<and> right_at s1 1 = Some R
         \<and> delete_detach 1 s1 = Some (sd, 0, R)
         \<and> root sd = Some L \<and> parent_at sd L = None \<and> parent_at sd R = None
         \<and> splay (Some 0) sd = Some ssp \<and> root ssp = Some 0 \<and> right_at ssp 0 = None
         \<and> delete_attach R ssp = Some sf
         \<and> root sf = Some 0 \<and> right_at sf 0 = Some R \<and> parent_at sf R = Some 0
         \<and> delete_chat ''s2'' example_state
             = Some ((free_node 1 sf)\<lparr>size_tree := size_tree example_state - 1\<rparr>, 1))"
proof -
  have f: "find_node ''s2'' example_state = Some (Some 1)" by code_simp
  have i: "inorder example_shape = [] @ 0 # 1 # 2 # []" by (simp add: inorder_example)
  from delete_two_children_splice[OF wf_example f i] wf_example f i show ?thesis by blast
qed

text \<open>
  C6, amended. For every well-formed tree and every key \<open>k\<close> of at most 63 characters,
  inserting \<open>k\<close> with \<open>title1\<close>, \<open>ts1\<close> and then with \<open>title2\<close>, \<open>ts2\<close> returns the same
  node both times and leaves \<open>size\<close> after the second insert as it was after the first;
  \<open>find_node\<close> of \<open>k\<close> then returns that node, and it holds the timestamp \<open>ts2\<close> and the
  title \<open>title2\<close> cut to its first \<open>MAX_TITLE_LEN - 1 = 255\<close> characters.
\<close>

theorem insert_existing_last_write_wins:
  assumes "wf_tree s t" and "length k < MAX_ID_LEN"
  shows "\<exists>s1 a s2. insert_chat k title1 ts1 s = Some (s1, a)
           \<and> insert_chat k title2 ts2 s1 = Some (s2, a)
           \<and> size_tree s2 = size_tree s1
           \<and> find_node k s2 = Some (Some a) \<and> key_at s2 a = k
           \<and> title_at s2 a = take (MAX_TITLE_LEN - 1) title2 \<and> timestamp_at s2 a = ts2"
proof -
  from insert_chat_abs[OF assms(1), of k title1 ts1] obtain s1 a t1 where
    1: "insert_chat k title1 ts1 s = Some (s1, a)" "wf_tree s1 t1" "root s1 = Some a"
       "key_at s1 a = take 63 k"
    by blast
  have "key_at s1 a = k" using 1(4) assms(2) by (simp add: MAX_ID_LEN_def)
  from insert_chat_root_match[OF 1(2,3) this, of title2 ts2] 1(1) show ?thesis
    by (auto simp: MAX_TITLE_LEN_def)
qed

theorem insert_existing_last_write_wins_witness:
  "wf_tree example_state example_shape \<and> length ''s9'' < MAX_ID_LEN
   \<and> (\<exists>s1 a s2. insert_chat ''s9'' ''X'' 1 example_state = Some (s1, a)
           \<and> insert_chat ''s9'' ''Y'' 2 s1 = Some (s2, a)
           \<and> size_tree s2 = size_tree s1
           \<and> find_node ''s9'' s2 = Some (Some a) \<and> key_at s2 a = ''s9''
           \<and> title_at s2 a = ''Y'' \<and> timestamp_at s2 a = 2)"
  using insert_existing_last_write_wins[OF wf_example, of "''s9''" "''X''" 1 "''Y''" 2] wf_example
  by (simp add: MAX_ID_LEN_def MAX_TITLE_LEN_def)

text \<open>
  C6 as stated fails: when \<open>title2\<close> has 256 characters, the node holds its first 255
  characters and not \<open>title2\<close>.
\<close>

theorem insert_existing_title_counterexample:
  "(case insert_chat ''a'' ''X'' 1 create_splay_tree of
      None \<Rightarrow> False
    | Some (s1, a1) \<Rightarrow>
        (case insert_chat ''a'' (replicate 256 (CHR ''y'')) 2 s1 of
           None \<Rightarrow> False
         | Some (s2, a2) \<Rightarrow> find_node ''a'' s2 = Some (Some a2) \<and> key_at s2 a2 = ''a''
             \<and> title_at s2 a2 = replicate 255 (CHR ''y'')
             \<and> title_at s2 a2 \<noteq> replicate 256 (CHR ''y'')))"
  by code_simp

text \<open>
  C7. For every well-formed tree, \<open>output_list\<close> returns, and the sequence \<open>ys\<close> of nodes
  that it prints is the stable sort by descending timestamp of the sequence \<open>xs\<close> that
  \<open>collect_inorder\<close> yields, the first \<open>MAX_CHATS\<close> nodes in order: \<open>ys\<close> is a rearrangement
  of \<open>xs\<close>, no entry comes before one with a strictly greater timestamp, and for every
  timestamp the entries that carry it stand in \<open>ys\<close> in the same order as in \<open>xs\<close>, their
  in-order (ascending key) order.
\<close>

theorem output_list_stable_by_timestamp:
  assumes "wf_tree s t"
  shows "\<exists>xs ys. collect s = Some xs \<and> xs = take MAX_CHATS (inorder t)
           \<and> output_list s = Some ys \<and> ys = stable_by_timestamp s xs
           \<and> mset ys = mset xs
           \<and> sorted_wrt (\<lambda>a b. timestamp_at s a \<ge> timestamp_at s b) ys
           \<and> (\<forall>ts. filter (\<lambda>a. timestamp_at s a = ts) ys = filter (\<lambda>a. timestamp_at s a = ts) xs)"
proof -
  define xs where "xs = take MAX_CHATS (inorder t)"
  define ys where "ys = stable_by_timestamp s xs"
  have c: "collect s = Some xs"
    unfolding xs_def using wf_treeD(1)[OF assms] by (rule collect_abs)
  have o: "output_list s = Some ys" by (simp add: output_list_collect c ys_def)
  have m: "mset ys = mset xs" by (simp add: ys_def stable_by_timestamp_def)
  have "sorted (map (\<lambda>a. - timestamp_at s a) ys)" by (simp add: ys_def stable_by_timestamp_def)
  then have st: "sorted_wrt (\<lambda>a b. timestamp_at s a \<ge> timestamp_at s b) ys"
    by (simp add: sorted_map)
  have f: "filter (\<lambda>a. timestamp_at s a = ts) ys = filter (\<lambda>a. timestamp_at s a = ts) xs" for ts
    using sort_key_stable[of "\<lambda>a. - timestamp_at s a" "- ts" xs]
    by (simp add: ys_def stable_by_timestamp_def)
  show ?thesis
  proof (rule exI[of _ xs], rule exI[of _ ys], intro conjI allI)
    show "collect s = Some xs" by (rule c)
    show "xs = take MAX_CHATS (inorder t)" by (rule xs_def)
    show "output_list s = Some ys" by (rule o)
    show "ys = stable_by_timestamp s xs" by (rule ys_def)
    show "mset ys = mset xs" by (rule m)
    show "sorted_wrt (\<lambda>a b. timestamp_at s a \<ge> timestamp_at s b) ys" by (rule st)
    show "filter (\<lambda>a. timestamp_at s a = ts) ys = filter (\<lambda>a. timestamp_at s a = ts) xs" for ts
      by (rule f)
  qed
qed

theorem output_list_stable_by_timestamp_witness:
  "\<exists>s t. run [Insert ''a'' ''A'' 5, Insert ''b'' ''B'' 5, Insert ''c'' ''C'' 9,
                Insert ''d'' ''D'' 5] create_splay_tree = Some s
         \<and> wf_tree s t \<and> collect s = Some [0, 1, 2, 3] \<and> take MAX_CHATS (inorder t) = [0, 1, 2, 3]
         \<and> map (timestamp_at s) [0, 1, 2, 3] = [5, 5, 9, 5]
         \<and> output_list s = Some [2, 0, 1, 3]
         \<and> stable_by_timestamp s [0, 1, 2, 3] = [2, 0, 1, 3]"
proof -
  define ops where "ops = [Insert ''a'' ''A'' 5, Insert ''b'' ''B'' 5, Insert ''c'' ''C'' 9,
                Insert ''d'' ''D'' 5]"
  from run_wf_tree[OF wf_tree_create, of ops] obtain s t where
    1: "run ops create_splay_tree = Some s" "wf_tree s t" by blast
  have "(case run [Insert ''a'' ''A'' 5, Insert ''b'' ''B'' 5, Insert ''c'' ''C'' 9,
                Insert ''d'' ''D'' 5] create_splay_tree of None \<Rightarrow> False
         | Some s \<Rightarrow> collect s = Some [0, 1, 2, 3]
              \<and> map (timestamp_at s) [0, 1, 2, 3] = [5, 5, 9, 5]
              \<and> output_list s = Some [2, 0, 1, 3])"
    by code_simp
  with 1(1) have 2: "collect s = Some [0, 1, 2, 3]" "map (timestamp_at s) [0, 1, 2, 3] = [5, 5, 9, 5]"
      "output_list s = Some [2, 0, 1, 3]"
    by (simp_all add: ops_def)
  from output_list_stable_by_timestamp[OF 1(2)] 2(1,3)
  have 3: "take MAX_CHATS (inorder t) = [0, 1, 2, 3]" "stable_by_timestamp s [0, 1, 2, 3] = [2, 0, 1, 3]"
    by auto
  show ?thesis
  proof (rule exI[of _ s], rule exI[of _ t], intro conjI)
    show "run [Insert ''a'' ''A'' 5, Insert ''b'' ''B'' 5, Insert ''c'' ''C'' 9,
                Insert ''d'' ''D'' 5] create_splay_tree = Some s"
      using 1(1) by (simp only: ops_def)
  qed (rule 1(2) 2 3)+
qed

text \<open>
  C8. A title that holds a backslash does not survive the file. For the title of one
  backslash \<open>json_escape\<close> writes two backslashes; the loader has no case for an escaped
  backslash, copies the first one, reads the second one together with the closing quote
  as an escaped quote and goes on into the text after the title: it reads back a
  backslash, a quote and a comma. (Titles without a backslash are read back as written,
  without their carriage returns: \<open>title_round_trip_without_backslash\<close>.)
\<close>

theorem backslash_title_round_trip_fails:
  "title_round_trip [CHR 0x5C] (CHR '','' # CHR 0x22 # ''timestamp'' @ CHR 0x22 # '':1}]}'')
   = [CHR 0x5C, CHR 0x22, CHR '','']"
  by code_simp

text \<open>
  C9. For every well-formed tree the in-order keys ascend, and Collect returns a result:
  all keys in in-order when the tree has at most \<open>MAX_CHATS = 100\<close> nodes, and exactly
  the first 100 keys of the in-order sequence when it has more.
\<close>

theorem collect_truncates_at_max_chats:
  assumes "wf_tree s t"
  shows "sorted (keys s t)
       \<and> (size_tree s \<le> int MAX_CHATS \<longrightarrow> collect_keys s = Some (keys s t))
       \<and> (int MAX_CHATS < size_tree s \<longrightarrow>
            collect_keys s = Some (take MAX_CHATS (keys s t))
            \<and> length (take MAX_CHATS (keys s t)) = MAX_CHATS)"
proof -
  note w = wf_treeD[OF assms]
  have "collect_keys s = Some (take MAX_CHATS (keys s t))" using w(1) by (rule collect_keys_abs)
  moreover have "length (keys s t) = length (inorder t)" by (simp add: keys_def)
  ultimately show ?thesis using w(2,6) by auto
qed

text \<open>C9 at the three-node example and at a tree of 101 nodes.\<close>

theorem collect_truncates_at_max_chats_witness:
  "wf_tree example_state example_shape \<and> size_tree example_state \<le> int MAX_CHATS
   \<and> collect_keys example_state = Some [''s1'', ''s2'', ''s3'']
   \<and> wf_tree (spine_state 101) (spine 0 101) \<and> int MAX_CHATS < size_tree (spine_state 101)
   \<and> collect_keys (spine_state 101) = Some (take MAX_CHATS (keys (spine_state 101) (spine 0 101)))"
  using collect_truncates_at_max_chats[OF wf_example] collect_truncates_at_max_chats[OF wf_spine]
    wf_example wf_spine
  by (simp add: keys_example size_example MAX_CHATS_def spine_state_def)

text \<open>
  C10. Two keys that agree on their first 63 characters do not address the same node.
  Inserting a key of 63 times \<open>a\<close> followed by \<open>b\<close> and then the same with \<open>c\<close> in place
  of \<open>b\<close> returns two different nodes (addresses 0 and 1) and leaves \<open>size = 2\<close>; both
  nodes store the same 63 characters as their key, and the first node keeps its title.
  (That every stored key has at most 63 and every stored title at most 255 characters
  is part of \<open>wf_tree\<close>, which \<open>run_wf_tree\<close> shows for every reachable state.)
\<close>

theorem keys_with_common_prefix_two_nodes:
  "(insert_chat (replicate 63 (CHR ''a'') @ ''b'') ''x'' 1 create_splay_tree \<bind> (\<lambda>(s, a).
      insert_chat (replicate 63 (CHR ''a'') @ ''c'') ''y'' 2 s \<bind> (\<lambda>(s', a').
        Some (a, a', size_tree s', key_at s' a, key_at s' a', title_at s' a))))
   = Some (0, 1, 2, replicate 63 (CHR ''a''), replicate 63 (CHR ''a''), ''x'')"
  by code_simp

end
